theory Spec2Isabelle
  imports Main "HOL-Library.Word" "HOL-Library.Multiset"
begin

unbundle bit_operations_syntax

section \<open>FastCGI wire codec (client/client.go)\<close>

type_synonym byte = "8 word"
type_synonym u16 = "16 word"
type_synonym u32 = "32 word"

text \<open>Go errors are values. \<open>PanicIndex\<close> stands for the run-time panic of an
  out-of-range slice access, \<open>Errorf\<close> for an error built by \<open>errors.New\<close> or
  \<open>fmt.Errorf\<close> with its message.\<close>

datatype error = EOF | ErrUnexpectedEOF | ErrShortWrite | PanicIndex | Errorf string

definition maxWrite :: nat where
  "maxWrite = 65535"

definition maxPad :: nat where
  "maxPad = 255"

text \<open>\<open>var pad [maxPad]byte\<close>: zero-initialised and never written.\<close>

definition pad :: "byte list" where
  "pad = replicate maxPad 0"

subsection \<open>Record types, header\<close>

text \<open>\<open>type recType uint8\<close> with its constants \<open>iota + 1\<close>.\<close>

type_synonym recType = byte

definition typeEndRequest :: recType where "typeEndRequest = 3"
definition typeParams :: recType where "typeParams = 4"
definition typeStdin :: recType where "typeStdin = 5"
definition typeStdout :: recType where "typeStdout = 6"
definition typeStderr :: recType where "typeStderr = 7"
definition typeData :: recType where "typeData = 8"
definition typeGetValues :: recType where "typeGetValues = 9"
definition typeGetValuesResult :: recType where "typeGetValuesResult = 10"
definition typeUnknownType :: recType where "typeUnknownType = 11"

type_synonym role = u16

definition roleResponder :: role where "roleResponder = 1"
definition roleAuthorizer :: role where "roleAuthorizer = 2"
definition roleFilter :: role where "roleFilter = 3"

record header =
  Version :: byte
  Type :: recType
  ID :: u16
  ContentLength :: u16
  PaddingLength :: byte
  Reserved :: byte

text \<open>The zero value of \<open>header\<close>, as in a freshly allocated \<open>conn\<close> or \<open>record\<close>.\<close>

definition header_zero :: header where
  "header_zero = \<lparr>Version = 0, Type = 0, ID = 0, ContentLength = 0, PaddingLength = 0, Reserved = 0\<rparr>"

text \<open>\<open>header.init\<close>: \<open>contentLength\<close> is a Go \<open>int\<close>; \<open>uint16(...)\<close> and \<open>uint8(...)\<close>
  truncate, \<open>-contentLength & 7\<close> is two's complement. \<open>Reserved\<close> is left as it is.\<close>

definition init :: "recType \<Rightarrow> u16 \<Rightarrow> int \<Rightarrow> header \<Rightarrow> header" where
  "init rt rid contentLength hd0 =
     hd0\<lparr>Version := 1, Type := rt, ID := rid,
         ContentLength := word_of_int contentLength,
         PaddingLength := word_of_int ((- contentLength) AND 7)\<rparr>"

text \<open>\<open>binary.BigEndian\<close>: \<open>PutUint16\<close>, \<open>PutUint32\<close>, \<open>Uint16\<close>, \<open>Uint32\<close>.\<close>

definition putUint16 :: "u16 \<Rightarrow> byte list" where
  "putUint16 v = [ucast (drop_bit 8 v), ucast v]"

definition putUint32 :: "u32 \<Rightarrow> byte list" where
  "putUint32 v = [ucast (drop_bit 24 v), ucast (drop_bit 16 v), ucast (drop_bit 8 v), ucast v]"

definition uint16_be :: "byte \<Rightarrow> byte \<Rightarrow> u16" where
  "uint16_be b0 b1 = push_bit 8 (ucast b0) OR ucast b1"

definition uint32_be :: "byte \<Rightarrow> byte \<Rightarrow> byte \<Rightarrow> byte \<Rightarrow> u32" where
  "uint32_be b0 b1 b2 b3 =
     ucast b3 OR push_bit 8 (ucast b2) OR push_bit 16 (ucast b1) OR push_bit 24 (ucast b0)"

text \<open>\<open>binary.Write(&c.buf, binary.BigEndian, c.h)\<close>: the fields in declaration order.\<close>

definition header_bytes :: "header \<Rightarrow> byte list" where
  "header_bytes hd0 =
     [Version hd0, Type hd0] @ putUint16 (ID hd0) @ putUint16 (ContentLength hd0)
       @ [PaddingLength hd0, Reserved hd0]"

subsection \<open>Reading a record\<close>

text \<open>\<open>record\<close>: the header and the buffer; \<open>buf\<close> of the model is the part of the
  array that \<open>read\<close> filled (\<open>rec.buf[:n]\<close>), which is all \<open>content\<close> looks at.\<close>

record rec =
  rec_h :: header
  rec_buf :: "byte list"

text \<open>\<open>record.read\<close> on the bytes still to come from the stream: \<open>binary.Read\<close> of the
  8 header bytes (\<open>io.EOF\<close> on an empty stream, \<open>io.ErrUnexpectedEOF\<close> on a short one),
  the version check, then \<open>io.ReadFull\<close> of content and padding.\<close>

definition read :: "byte list \<Rightarrow> error + (rec \<times> byte list)" where
  "read r =
     (if r = [] then Inl EOF
      else if length r < 8 then Inl ErrUnexpectedEOF
      else
        let hd0 = \<lparr>Version = r ! 0, Type = r ! 1, ID = uint16_be (r ! 2) (r ! 3),
                   ContentLength = uint16_be (r ! 4) (r ! 5),
                   PaddingLength = r ! 6, Reserved = r ! 7\<rparr>;
            r' = drop 8 r
        in if Version hd0 \<noteq> 1 then Inl (Errorf ''fcgi: invalid header version'')
           else
             let n = unat (ContentLength hd0) + unat (PaddingLength hd0)
             in if n = 0 then Inr (\<lparr>rec_h = hd0, rec_buf = []\<rparr>, r')
                else if r' = [] then Inl EOF
                else if length r' < n then Inl ErrUnexpectedEOF
                else Inr (\<lparr>rec_h = hd0, rec_buf = take n r'\<rparr>, drop n r'))"

definition content :: "rec \<Rightarrow> byte list" where
  "content rc = take (unat (ContentLength (rec_h rc))) (rec_buf rc)"

subsection \<open>The connection and its writers\<close>

text \<open>\<open>conn\<close>: the stream \<open>rwc\<close> is an interface value; its state has type \<open>'s\<close> and its
  \<open>Write\<close> method is the parameter \<open>wr\<close> of every writer below (it returns the new state of
  the stream and the error). The mutex is not modelled: the model is sequential.\<close>

record 's conn =
  rwc :: 's
  buf :: "byte list"
  h :: header

type_synonym 's writeFn = "'s \<Rightarrow> byte list \<Rightarrow> 's \<times> error option"

definition newConn :: "'s \<Rightarrow> 's conn" where
  "newConn s = \<lparr>rwc = s, buf = [], h = header_zero\<rparr>"

text \<open>\<open>conn.writeRecord\<close>: reset the buffer, initialise the header, write header, body and
  padding to the buffer (writes to a \<open>bytes.Buffer\<close> do not fail), then one \<open>Write\<close> on
  the stream.\<close>

definition writeRecord :: "'s writeFn \<Rightarrow> recType \<Rightarrow> u16 \<Rightarrow> byte list \<Rightarrow> 's conn \<Rightarrow> error option \<times> 's conn" where
  "writeRecord wr rt rid b c =
     (let h' = init rt rid (int (length b)) (h c);
          buf' = header_bytes h' @ b @ take (unat (PaddingLength h')) pad;
          (s', e) = wr (rwc c) buf'
      in (e, c\<lparr>rwc := s', buf := buf', h := h'\<rparr>))"


definition writeEndRequest :: "'s writeFn \<Rightarrow> u16 \<Rightarrow> int \<Rightarrow> byte \<Rightarrow> 's conn \<Rightarrow> error option \<times> 's conn" where
  "writeEndRequest wr rid appStatus protocolStatus c =
     writeRecord wr typeEndRequest rid
       (putUint32 (word_of_int appStatus) @ [protocolStatus, 0, 0, 0]) c"


subsection \<open>streamWriter\<close>

record streamWriter =
  recType :: recType
  reqID :: u16

text \<open>\<open>streamWriter.Write\<close>: the loop, with the count \<open>nn\<close> as accumulator.\<close>

function streamWriter_Write_loop ::
  "'s writeFn \<Rightarrow> streamWriter \<Rightarrow> byte list \<Rightarrow> nat \<Rightarrow> 's conn \<Rightarrow> (nat \<times> error option) \<times> 's conn" where
  "streamWriter_Write_loop wr w p nn c =
     (if length p > 0 then
        let n = (if length p > maxWrite then maxWrite else length p)
        in case writeRecord wr (recType w) (reqID w) (take n p) c of
             (Some e, c') \<Rightarrow> ((nn, Some e), c')
           | (None, c') \<Rightarrow> streamWriter_Write_loop wr w (drop n p) (nn + n) c'
      else ((nn, None), c))"
  by pat_completeness auto
termination
  by (relation "measure (\<lambda>(wr, w, p, nn, c). length p)") (auto simp: maxWrite_def)

declare streamWriter_Write_loop.simps [simp del]

definition streamWriter_Write ::
  "'s writeFn \<Rightarrow> streamWriter \<Rightarrow> byte list \<Rightarrow> 's conn \<Rightarrow> (nat \<times> error option) \<times> 's conn" where
  "streamWriter_Write wr w p c = streamWriter_Write_loop wr w p 0 c"

definition streamWriter_Close :: "'s writeFn \<Rightarrow> streamWriter \<Rightarrow> 's conn \<Rightarrow> error option \<times> 's conn" where
  "streamWriter_Close wr w c = writeRecord wr (recType w) (reqID w) [] c"

subsection \<open>Name-value pair lengths\<close>

text \<open>\<open>readSize\<close>.\<close>

definition readSize :: "byte list \<Rightarrow> u32 \<times> nat" where
  "readSize s =
     (if length s = 0 then (0, 0)
      else
        let size0 = (ucast (s ! 0) :: u32)
        in if size0 AND (push_bit 7 1) \<noteq> 0 then
             (if length s < 4 then (0, 0)
              else (uint32_be (s ! 0) (s ! 1) (s ! 2) (s ! 3) AND NOT (push_bit 31 1), 4))
           else (size0, 1))"

text \<open>\<open>encodeSize\<close> writes into the slice \<open>b\<close> and returns the count; the model returns
  the slice as written. An access beyond the slice panics.\<close>

definition encodeSize :: "byte list \<Rightarrow> u32 \<Rightarrow> error + (byte list \<times> nat)" where
  "encodeSize b size0 =
     (if size0 > 127 then
        (if length b < 4 then Inl PanicIndex
         else Inr (putUint32 (size0 OR push_bit 31 1) @ drop 4 b, 4))
      else
        (if length b < 1 then Inl PanicIndex
         else Inr (ucast size0 # drop 1 b, 1)))"

subsection \<open>bufio.Writer over a streamWriter\<close>

text \<open>\<open>newWriter\<close> wraps the \<open>streamWriter\<close> in a \<open>bufio.Writer\<close> of the Go standard
  library, made by \<open>bufio.NewWriterSize(s, maxWrite)\<close>; that is the only buffered writer
  of the program, so the buffer size is \<open>maxWrite\<close>. The model keeps the buffered bytes
  \<open>buf[0:n]\<close> and the sticky error, and follows \<open>Available\<close>, \<open>Flush\<close>, \<open>Write\<close> and
  \<open>WriteString\<close> of the library (\<open>streamWriter\<close> has no \<open>WriteString\<close> method, so
  \<open>WriteString\<close> always copies into the buffer).\<close>

record bufioWriter =
  b_err :: "error option"
  b_buf :: "byte list"

definition NewWriterSize :: bufioWriter where
  "NewWriterSize = \<lparr>b_err = None, b_buf = []\<rparr>"

definition Available :: "bufioWriter \<Rightarrow> nat" where
  "Available bw = maxWrite - length (b_buf bw)"

definition Flush ::
  "'s writeFn \<Rightarrow> streamWriter \<Rightarrow> bufioWriter \<Rightarrow> 's conn \<Rightarrow> error option \<times> bufioWriter \<times> 's conn" where
  "Flush wr w bw c =
     (case b_err bw of
        Some e \<Rightarrow> (Some e, bw, c)
      | None \<Rightarrow>
          if length (b_buf bw) = 0 then (None, bw, c)
          else
            (case streamWriter_Write wr w (b_buf bw) c of
               ((n, e), c') \<Rightarrow>
                 (case (if n < length (b_buf bw) \<and> e = None then Some ErrShortWrite else e) of
                    Some er \<Rightarrow> (Some er, bw\<lparr>b_buf := drop n (b_buf bw), b_err := Some er\<rparr>, c')
                  | None \<Rightarrow> (None, bw\<lparr>b_buf := []\<rparr>, c'))))"

function bufio_Write ::
  "'s writeFn \<Rightarrow> streamWriter \<Rightarrow> byte list \<Rightarrow> nat \<Rightarrow> bufioWriter \<Rightarrow> 's conn
     \<Rightarrow> (nat \<times> error option) \<times> bufioWriter \<times> 's conn" where
  "bufio_Write wr w p nn bw c =
     (if length p > Available bw \<and> b_err bw = None then
        (if length (b_buf bw) = 0 then
           (case streamWriter_Write wr w p c of
              ((n, e), c') \<Rightarrow> bufio_Write wr w (drop n p) (nn + n) (bw\<lparr>b_err := e\<rparr>) c')
         else
           (case Flush wr w (bw\<lparr>b_buf := b_buf bw @ take (min (Available bw) (length p)) p\<rparr>) c of
              (e, bw', c') \<Rightarrow>
                bufio_Write wr w (drop (min (Available bw) (length p)) p)
                  (nn + min (Available bw) (length p)) bw' c'))
      else if b_err bw \<noteq> None then ((nn, b_err bw), bw, c)
      else ((nn + length p, None), bw\<lparr>b_buf := b_buf bw @ p\<rparr>, c))"
  by pat_completeness auto
termination
proof (relation "measure (\<lambda>(wr, w, p, nn, bw, c).
          if b_err bw \<noteq> None \<or> length p \<le> Available bw then 0
          else if b_buf bw = [] then 1 else 2)", goal_cases)
  case 1
  show ?case by simp
next
  case (2 wr w p nn bw c x c' n e)
  have loop: "\<And>q m d. snd (fst (streamWriter_Write_loop wr w q m d)) = None
                \<Longrightarrow> fst (fst (streamWriter_Write_loop wr w q m d)) = m + length q"
  proof -
    fix q m d
    show "snd (fst (streamWriter_Write_loop wr w q m d)) = None
            \<Longrightarrow> fst (fst (streamWriter_Write_loop wr w q m d)) = m + length q"
    proof (induction wr w q m d rule: streamWriter_Write_loop.induct)
      case (1 wr w p nn c)
      show ?case
      proof (cases "length p > 0")
        case False
        then show ?thesis by (subst streamWriter_Write_loop.simps) simp
      next
        case True
        let ?n = "if length p > maxWrite then maxWrite else length p"
        obtain e1 c1 where wr1: "writeRecord wr (recType w) (reqID w) (take ?n p) c = (e1, c1)"
          by (cases "writeRecord wr (recType w) (reqID w) (take ?n p) c") auto
        show ?thesis
        proof (cases e1)
          case (Some er)
          with True wr1 "1.prems" show ?thesis
            by (subst (asm) streamWriter_Write_loop.simps) (simp add: Let_def)
        next
          case None
          have "snd (fst (streamWriter_Write_loop wr w (drop ?n p) (nn + ?n) c1)) = None"
            using "1.prems" True wr1 None
            by (subst (asm) streamWriter_Write_loop.simps) (simp add: Let_def)
          then have "fst (fst (streamWriter_Write_loop wr w (drop ?n p) (nn + ?n) c1))
                  = nn + ?n + length (drop ?n p)"
            by (rule "1.IH"[OF True refl wr1[symmetric] None])
          then show ?thesis using True wr1 None
            by (subst streamWriter_Write_loop.simps) (simp add: Let_def)
        qed
      qed
    qed
  qed
  from 2 have eq: "streamWriter_Write_loop wr w p 0 c = ((n, e), c')"
    by (simp add: streamWriter_Write_def)
  have "e = None \<Longrightarrow> n = length p"
    using loop[of p 0 c] by (simp add: eq)
  with 2 show ?case by (cases e) auto
next
  case (3 wr w p nn bw c e' y bw' c')
  then have "b_err bw' \<noteq> None \<or> b_buf bw' = []"
    by (auto simp: Flush_def split: option.splits if_splits prod.splits)
  then show ?case using 3 by auto
qed

function bufio_WriteString ::
  "'s writeFn \<Rightarrow> streamWriter \<Rightarrow> byte list \<Rightarrow> nat \<Rightarrow> bufioWriter \<Rightarrow> 's conn
     \<Rightarrow> (nat \<times> error option) \<times> bufioWriter \<times> 's conn" where
  "bufio_WriteString wr w s nn bw c =
     (if length s > Available bw \<and> b_err bw = None then
        (case Flush wr w (bw\<lparr>b_buf := b_buf bw @ take (min (Available bw) (length s)) s\<rparr>) c of
           (e, bw', c') \<Rightarrow>
             bufio_WriteString wr w (drop (min (Available bw) (length s)) s)
               (nn + min (Available bw) (length s)) bw' c')
      else if b_err bw \<noteq> None then ((nn, b_err bw), bw, c)
      else ((nn + length s, None), bw\<lparr>b_buf := b_buf bw @ s\<rparr>, c))"
  by pat_completeness auto
termination
proof (relation "measure (\<lambda>(wr, w, s, nn, bw, c).
          if b_err bw \<noteq> None \<or> length s \<le> Available bw then 0
          else 2 * length s + (if b_buf bw = [] then 0 else 1))", goal_cases)
  case 1
  show ?case by simp
next
  case (2 wr w s nn bw c e' y bw' c')
  then have r: "b_err bw' \<noteq> None \<or> b_buf bw' = []"
    by (auto simp: Flush_def split: option.splits if_splits prod.splits)
  show ?case
  proof (cases "Available bw = 0")
    case True
    then have "b_buf bw \<noteq> []" by (auto simp: Available_def maxWrite_def)
    with True r 2 show ?thesis by auto
  next
    case False
    with r 2 show ?thesis by auto
  qed
qed

declare bufio_Write.simps [simp del]
declare bufio_WriteString.simps [simp del]

subsection \<open>bufWriter\<close>

record bufWriter =
  closer :: streamWriter
  Writer :: bufioWriter

definition newWriter :: "recType \<Rightarrow> u16 \<Rightarrow> bufWriter" where
  "newWriter rt rid = \<lparr>closer = \<lparr>recType = rt, reqID = rid\<rparr>, Writer = NewWriterSize\<rparr>"

text \<open>\<open>bufWriter.Close\<close>: flush, then close the stream (also when the flush failed, and
  then the flush error is the result).\<close>

definition bufWriter_Close :: "'s writeFn \<Rightarrow> bufWriter \<Rightarrow> 's conn \<Rightarrow> error option \<times> 's conn" where
  "bufWriter_Close wr w c =
     (case Flush wr (closer w) (Writer w) c of
        (Some e, bw', c') \<Rightarrow> (Some e, snd (streamWriter_Close wr (closer w) c'))
      | (None, bw', c') \<Rightarrow> streamWriter_Close wr (closer w) c')"

subsection \<open>writePairs\<close>

text \<open>Go strings are byte strings: \<open>string\<close> of the model is a list of 8-bit characters,
  \<open>bytes_of\<close> is \<open>[]byte(s)\<close> and \<open>string_of\<close> is \<open>string(b)\<close>.\<close>

definition bytes_of :: "string \<Rightarrow> byte list" where
  "bytes_of s = map (\<lambda>ch. of_nat (of_char ch)) s"

definition string_of :: "byte list \<Rightarrow> string" where
  "string_of b = map (\<lambda>x. char_of (unat x)) b"

text \<open>The body of the \<open>range\<close> loop of \<open>writePairs\<close>, over the pairs in the order the
  iteration of the Go map yields them. \<open>b\<close> is the 8-byte scratch slice; \<open>encodeSize(b[n:], ...)\<close>
  writes into it behind the first length.\<close>

fun writePairs_loop ::
  "'s writeFn \<Rightarrow> bufWriter \<Rightarrow> byte list \<Rightarrow> (string \<times> string) list \<Rightarrow> 's conn
     \<Rightarrow> error option \<times> bufWriter \<times> 's conn" where
  "writePairs_loop wr w b [] c = (None, w, c)"
| "writePairs_loop wr w b ((k, v) # pairs) c =
     (case encodeSize b (of_nat (length k)) of
        Inl e \<Rightarrow> (Some e, w, c)
      | Inr (b1, n) \<Rightarrow>
          (case encodeSize (drop n b1) (of_nat (length v)) of
             Inl e \<Rightarrow> (Some e, w, c)
           | Inr (b2, m) \<Rightarrow>
               (case bufio_Write wr (closer w) (take (n + m) (take n b1 @ b2)) 0 (Writer w) c of
                  ((x1, Some e), bw1, c1) \<Rightarrow> (Some e, w\<lparr>Writer := bw1\<rparr>, c1)
                | ((x1, None), bw1, c1) \<Rightarrow>
                    (case bufio_WriteString wr (closer w) (bytes_of k) 0 bw1 c1 of
                       ((x2, Some e), bw2, c2) \<Rightarrow> (Some e, w\<lparr>Writer := bw2\<rparr>, c2)
                     | ((x2, None), bw2, c2) \<Rightarrow>
                         (case bufio_WriteString wr (closer w) (bytes_of v) 0 bw2 c2 of
                            ((x3, Some e), bw3, c3) \<Rightarrow> (Some e, w\<lparr>Writer := bw3\<rparr>, c3)
                          | ((x3, None), bw3, c3) \<Rightarrow>
                              writePairs_loop wr (w\<lparr>Writer := bw3\<rparr>) (take n b1 @ b2) pairs c3)))))"

text \<open>\<open>conn.writePairs\<close>: an error of a write returns at once (without closing the
  stream); after the loop the result of \<open>w.Close()\<close> is dropped and \<open>nil\<close> is returned.\<close>

definition writePairs ::
  "'s writeFn \<Rightarrow> recType \<Rightarrow> u16 \<Rightarrow> (string \<times> string) list \<Rightarrow> 's conn \<Rightarrow> error option \<times> 's conn" where
  "writePairs wr rt rid pairs c =
     (case writePairs_loop wr (newWriter rt rid) (replicate 8 0) pairs c of
        (Some e, w', c') \<Rightarrow> (Some e, c')
      | (None, w', c') \<Rightarrow> (None, snd (bufWriter_Close wr w' c')))"

text \<open>\<open>readString\<close>.\<close>

definition readString :: "byte list \<Rightarrow> u32 \<Rightarrow> string" where
  "readString s size0 =
     (if size0 > (of_nat (length s) :: u32) then []
      else string_of (take (unat size0) s))"

section \<open>Requests, request ids and the client (client.go)\<close>

subsection \<open>Request\<close>

text \<open>An \<open>io.Reader\<close> is the list of the results its \<open>Read\<close> calls are going to give (the
  bytes and the error of each call); after them it reports \<open>(0, io.EOF)\<close>. \<open>Read\<close> into a
  slice of \<open>n\<close> bytes copies at most \<open>n\<close> bytes.\<close>

type_synonym reader = "(byte list \<times> error option) list"

definition Read :: "nat \<Rightarrow> reader \<Rightarrow> (byte list \<times> error option) \<times> reader" where
  "Read n rd =
     (case rd of
        [] \<Rightarrow> (([], Some EOF), [])
      | (d, e) # rest \<Rightarrow> ((take n d, e), rest))"

text \<open>What the client looks at in a \<open>*http.Request\<close>: its body (\<open>nil\<close> is \<open>None\<close>) and
  whether its context is already cancelled.\<close>

record httpRequest =
  Body :: "reader option"
  ctxDone :: bool

record Request =
  Raw :: "httpRequest option"
  Role :: role
  Params :: "(string \<times> string) list"
  Stdin :: "reader option"
  Data :: "reader option"
  FlagKeepConn :: byte

text \<open>\<open>NewRequest\<close>. \<open>Params\<close> starts as the empty map.\<close>

definition NewRequest :: "httpRequest option \<Rightarrow> Request" where
  "NewRequest r =
     (let req = \<lparr>Raw = r, Role = roleResponder, Params = [], Stdin = None, Data = None,
                 FlagKeepConn = 1\<rparr>
      in case r of
           None \<Rightarrow> req
         | Some rq \<Rightarrow> req\<lparr>Stdin := Body rq\<rparr>)"

subsection \<open>idPool\<close>

text \<open>The channel \<open>IDs\<close> is unbuffered. Its senders are the goroutine started by
  \<open>newIDPool\<close>, which offers \<open>i\<close> while \<open>i <= maxID\<close> and then increments the
  \<open>uint16\<close>, and one goroutine for every \<open>Release\<close> not yet received. \<open>Alloc\<close> receives
  from one of the waiting senders; which one is the scheduler's choice.\<close>

record idPool =
  gen_i :: u16
  gen_maxID :: u16
  releasing :: "u16 list"

datatype sender = Generator | Releaser nat

definition newIDPool :: "u32 \<Rightarrow> idPool" where
  "newIDPool limit =
     (let limit' = (if limit = 0 \<or> limit > 65535 then 65535 else limit)
      in \<lparr>gen_i = 1, gen_maxID = ucast limit', releasing = []\<rparr>)"

definition Alloc :: "sender \<Rightarrow> idPool \<Rightarrow> (u16 \<times> idPool) option" where
  "Alloc sch p =
     (case sch of
        Generator \<Rightarrow>
          if gen_i p \<le> gen_maxID p then Some (gen_i p, p\<lparr>gen_i := gen_i p + 1\<rparr>)
          else None
      | Releaser k \<Rightarrow>
          if k < length (releasing p)
          then Some (releasing p ! k,
                     p\<lparr>releasing := take k (releasing p) @ drop (Suc k) (releasing p)\<rparr>)
          else None)"

definition Release :: "u16 \<Rightarrow> idPool \<Rightarrow> idPool" where
  "Release rid p = p\<lparr>releasing := releasing p @ [rid]\<rparr>"

subsection \<open>client\<close>

text \<open>\<open>ConnFactory\<close>: a dial gives the stream or an error.\<close>

type_synonym 's ConnFactory = "unit \<Rightarrow> error + 's"

record 's client =
  conn :: "'s conn option"
  connFactory :: "'s ConnFactory"
  idPool :: idPool

definition NewConn :: "'s client \<Rightarrow> error option \<times> 's client" where
  "NewConn c =
     (case connFactory c () of
        Inl e \<Rightarrow> (Some e, c)
      | Inr s \<Rightarrow> (None, c\<lparr>conn := Some (newConn s)\<rparr>))"

text \<open>\<open>CloseConn\<close>; the result of closing the stream is the parameter \<open>cl\<close>.\<close>

definition CloseConn :: "('s \<Rightarrow> error option) \<Rightarrow> 's client \<Rightarrow> error option \<times> 's client" where
  "CloseConn cl c =
     (case conn c of
        None \<Rightarrow> (None, c)
      | Some cn \<Rightarrow> (cl (rwc cn), c\<lparr>conn := None\<rparr>))"

text \<open>A \<open>Client\<close> interface value: \<open>None\<close> is the nil interface. \<open>ClientFactory\<close> returns
  the client and the error.\<close>

type_synonym 's ClientFactory = "unit \<Rightarrow> 's client option \<times> error option"

definition SimpleClientFactory :: "'s ConnFactory \<Rightarrow> u32 \<Rightarrow> 's ClientFactory" where
  "SimpleClientFactory cf limit = (\<lambda>u.
     case cf () of
       Inl e \<Rightarrow> (None, Some e)
     | Inr s \<Rightarrow> (Some \<lparr>conn = Some (newConn s), connFactory = cf, idPool = newIDPool limit\<rparr>, None))"

definition SimpleClientFactoryNoConn :: "'s ConnFactory \<Rightarrow> u32 \<Rightarrow> 's ClientFactory" where
  "SimpleClientFactoryNoConn cf limit = (\<lambda>u.
     (Some \<lparr>conn = None, connFactory = cf, idPool = newIDPool limit\<rparr>, None))"

subsection \<open>writeRequest\<close>




subsection \<open>ResponsePipe and Do\<close>

text \<open>The two in-memory pipes: the bytes written to each and whether its writer end has
  been closed.\<close>

record ResponsePipe =
  stdOutData :: "byte list"
  stdOutWriterClosed :: bool
  stdErrData :: "byte list"
  stdErrWriterClosed :: bool

definition NewResponsePipe :: ResponsePipe where
  "NewResponsePipe = \<lparr>stdOutData = [], stdOutWriterClosed = False,
                       stdErrData = [], stdErrWriterClosed = False\<rparr>"

definition ResponsePipe_Close :: "ResponsePipe \<Rightarrow> ResponsePipe" where
  "ResponsePipe_Close pipes = pipes\<lparr>stdOutWriterClosed := True, stdErrWriterClosed := True\<rparr>"

text \<open>The goroutines \<open>Do\<close> starts, in the order of the \<open>go\<close> statements: the one that
  waits for writer and reader, the writer, the reader, and the supervisor that releases
  the request id and closes the pipe.\<close>

datatype task = AwaitBoth | WriterTask u16 | ReaderTask | Supervisor u16

record DoResult =
  resp :: ResponsePipe
  err :: "error option"
  spawned :: "task list"

text \<open>\<open>client.Do\<close> up to its \<open>return\<close>. \<open>None\<close>: \<open>Alloc\<close> has no sender to receive
  from and \<open>Do\<close> blocks there.\<close>

definition Do :: "sender \<Rightarrow> Request \<Rightarrow> 's client \<Rightarrow> (DoResult \<times> 's client) option" where
  "Do sch req c =
     (case Alloc sch (idPool c) of
        None \<Rightarrow> None
      | Some (rid, pool') \<Rightarrow>
          if conn c = None then
            Some (\<lparr>resp = NewResponsePipe,
                    err = Some (Errorf ''client connection has been closed''),
                    spawned = []\<rparr>, c\<lparr>idPool := pool'\<rparr>)
          else
            Some (\<lparr>resp = NewResponsePipe, err = None,
                    spawned = [AwaitBoth, WriterTask rid, ReaderTask, Supervisor rid]\<rparr>,
                  c\<lparr>idPool := pool'\<rparr>))"

text \<open>The supervisor goroutine: every error received from writer or reader is written to
  the stderr pipe; when both are done, the id is released and the pipe closed.\<close>

definition supervisor ::
  "u16 \<Rightarrow> string list \<Rightarrow> ResponsePipe \<times> idPool \<Rightarrow> ResponsePipe \<times> idPool" where
  "supervisor rid rwErrors st =
     (case st of (pipes, pool) \<Rightarrow>
        (ResponsePipe_Close
           (pipes\<lparr>stdErrData := stdErrData pipes @ concat (map bytes_of rwErrors)\<rparr>),
         Release rid pool))"

section \<open>The client pool (pool.go)\<close>

record 's PoolClient =
  Client :: "'s client option"
  Err :: "error option"
  expires :: nat

text \<open>The pool's two channels: the stocked clients, oldest first, and the number of
  tokens in \<open>poolTag\<close>; \<open>scale\<close> is the capacity of both.\<close>

record 's ClientPool =
  pool :: "'s PoolClient list"
  poolTag :: nat
  scale :: nat

text \<open>One turn of the stocking goroutine of \<open>NewClientPool\<close> at time \<open>now\<close>
  (\<open>None\<close>: it blocks on a full channel).\<close>

definition stock_one :: "'s ClientFactory \<Rightarrow> nat \<Rightarrow> nat \<Rightarrow> 's ClientPool \<Rightarrow> 's ClientPool option" where
  "stock_one clientFactory ttl now p =
     (if poolTag p \<ge> scale p then None
      else
        (case clientFactory () of (c, e) \<Rightarrow>
           if length (pool p) \<ge> scale p then None
           else Some (p\<lparr>poolTag := poolTag p + 1,
                        pool := pool p @ [\<lparr>Client = c, Err = e, expires = now + ttl\<rparr>]\<rparr>)))"

text \<open>\<open>ClientPool.CreateClient\<close>. \<open>Blocks\<close>: a receive with nothing in the channel;
  \<open>Panics\<close>: the call of \<open>NewConn\<close> on a nil \<open>Client\<close>. The result of \<open>pc.NewConn()\<close> is
  dropped.\<close>

datatype 'a outcome = Blocks | Panics | Returns 'a

definition CreateClient ::
  "'s ClientPool \<Rightarrow> (('s PoolClient option \<times> error option) \<times> 's ClientPool) outcome" where
  "CreateClient p =
     (case pool p of
        [] \<Rightarrow> Blocks
      | pc # rest \<Rightarrow>
          (case Client pc of
             None \<Rightarrow> Panics
           | Some cl \<Rightarrow>
               (case NewConn cl of (e, cl') \<Rightarrow>
                  if poolTag p = 0 then Blocks
                  else
                    (case Err pc of
                       Some er \<Rightarrow> Returns ((None, Some er), p\<lparr>pool := rest, poolTag := poolTag p - 1\<rparr>)
                     | None \<Rightarrow>
                         Returns ((Some (pc\<lparr>Client := Some cl'\<rparr>), None),
                                  p\<lparr>pool := rest, poolTag := poolTag p - 1\<rparr>)))))"

text \<open>\<open>CreateClient\<close> once more, with the channel operations and calls it makes, in the
  order of the code, up to the point where it blocks, panics or returns.\<close>

datatype poolStep = RecvPool | CallNewConn | RecvPoolTag | ReadErr

definition CreateClient_steps ::
  "'s ClientPool
     \<Rightarrow> poolStep list \<times> (('s PoolClient option \<times> error option) \<times> 's ClientPool) outcome" where
  "CreateClient_steps p =
     (case pool p of
        [] \<Rightarrow> ([RecvPool], Blocks)
      | pc # rest \<Rightarrow>
          (case Client pc of
             None \<Rightarrow> ([RecvPool, CallNewConn], Panics)
           | Some cl \<Rightarrow>
               (case NewConn cl of (e, cl') \<Rightarrow>
                  if poolTag p = 0 then ([RecvPool, CallNewConn, RecvPoolTag], Blocks)
                  else
                    (case Err pc of
                       Some er \<Rightarrow>
                         ([RecvPool, CallNewConn, RecvPoolTag, ReadErr],
                          Returns ((None, Some er), p\<lparr>pool := rest, poolTag := poolTag p - 1\<rparr>))
                     | None \<Rightarrow>
                         ([RecvPool, CallNewConn, RecvPoolTag, ReadErr],
                          Returns ((Some (pc\<lparr>Client := Some cl'\<rparr>), None),
                                   p\<lparr>pool := rest, poolTag := poolTag p - 1\<rparr>))))))"

section \<open>The CGI response on stdout (ResponsePipe.writeResponse)\<close>

text \<open>The stdout stream is the byte string that reaches the reader end of the pipe before
  it is closed; bytes are 8-bit characters.\<close>

definition LF :: char where "LF = CHR 0x0A"
definition CR :: char where "CR = CHR 0x0D"

subsection \<open>Library functions the parser calls\<close>

text \<open>\<open>bufio.Reader.ReadLine\<close> over the bytes still to come, for a reader made by
  \<open>bufio.NewReaderSize(r, sz)\<close>: the line without its end-of-line, \<open>isPrefix\<close>, the error,
  and the bytes left. A line is found when its \<open>\n\<close> is among the next \<open>sz\<close> bytes;
  otherwise the full buffer is returned with \<open>isPrefix\<close> (a trailing \<open>\r\<close> is put back),
  or, at the end of the stream, what is left.\<close>

definition ReadLine :: "nat \<Rightarrow> string \<Rightarrow> (string \<times> bool \<times> error option) \<times> string" where
  "ReadLine sz s =
     (if s = [] then (([], False, Some EOF), [])
      else if LF \<in> set (take sz s) then
        (let line = takeWhile (\<lambda>ch. ch \<noteq> LF) s
         in ((if line \<noteq> [] \<and> last line = CR then butlast line else line, False, None),
             drop (length line + 1) s))
      else if length s \<ge> sz then
        (if take sz s \<noteq> [] \<and> last (take sz s) = CR
         then ((butlast (take sz s), True, None), drop (sz - 1) s)
         else ((take sz s, True, None), drop sz s))
      else ((s, False, None), []))"

text \<open>\<open>strings.SplitN(s, ":", 2)\<close>.\<close>

definition SplitN2 :: "string \<Rightarrow> string list" where
  "SplitN2 s =
     (if CHR '':'' \<in> set s
      then [takeWhile (\<lambda>ch. ch \<noteq> CHR '':'') s, tl (dropWhile (\<lambda>ch. ch \<noteq> CHR '':'') s)]
      else [s])"

text \<open>\<open>strings.TrimSpace\<close> removes the leading and trailing white space of Unicode
  (\<open>unicode.IsSpace\<close>); \<open>spaceSeqs\<close> lists the UTF-8 encodings of those code points.\<close>

definition spaceSeqs :: "string list" where
  "spaceSeqs =
     [[CHR 0x09], [CHR 0x0A], [CHR 0x0B], [CHR 0x0C], [CHR 0x0D], [CHR 0x20],
      [CHR 0xC2, CHR 0x85], [CHR 0xC2, CHR 0xA0], [CHR 0xE1, CHR 0x9A, CHR 0x80],
      [CHR 0xE2, CHR 0x80, CHR 0x80], [CHR 0xE2, CHR 0x80, CHR 0x81],
      [CHR 0xE2, CHR 0x80, CHR 0x82], [CHR 0xE2, CHR 0x80, CHR 0x83],
      [CHR 0xE2, CHR 0x80, CHR 0x84], [CHR 0xE2, CHR 0x80, CHR 0x85],
      [CHR 0xE2, CHR 0x80, CHR 0x86], [CHR 0xE2, CHR 0x80, CHR 0x87],
      [CHR 0xE2, CHR 0x80, CHR 0x88], [CHR 0xE2, CHR 0x80, CHR 0x89],
      [CHR 0xE2, CHR 0x80, CHR 0x8A], [CHR 0xE2, CHR 0x80, CHR 0xA8],
      [CHR 0xE2, CHR 0x80, CHR 0xA9], [CHR 0xE2, CHR 0x80, CHR 0xAF],
      [CHR 0xE2, CHR 0x81, CHR 0x9F], [CHR 0xE3, CHR 0x80, CHR 0x80]]"

function trimLeft :: "string list \<Rightarrow> string \<Rightarrow> string" where
  "trimLeft qs s =
     (case find (\<lambda>q. q \<noteq> [] \<and> take (length q) s = q) qs of
        Some q \<Rightarrow> trimLeft qs (drop (length q) s)
      | None \<Rightarrow> s)"
  by pat_completeness auto
termination
proof (relation "measure (\<lambda>(qs, s). length s)", goal_cases)
  case 1
  show ?case by simp
next
  case (2 qs s q)
  have fP: "find P xs = Some x \<Longrightarrow> P x" for P :: "string \<Rightarrow> bool" and xs x
    by (induction xs) (auto split: if_splits)
  from fP[OF 2] have q: "q \<noteq> []" and t: "take (length q) s = q" by simp_all
  have "length (take (length q) s) = length q" by (simp only: t)
  then have "length q \<le> length s" by simp
  moreover have "0 < length q" using q by simp
  ultimately have "length s - length q < length s" by arith
  then show ?case by simp
qed

declare trimLeft.simps [simp del]

definition TrimSpace :: "string \<Rightarrow> string" where
  "TrimSpace s = rev (trimLeft (map rev spaceSeqs) (rev (trimLeft spaceSeqs s)))"

text \<open>\<open>strconv.Atoi\<close> as it runs on the short strings it gets here (three bytes): an
  optional sign, then decimal digits only.\<close>

definition digit_of :: "char \<Rightarrow> nat option" where
  "digit_of ch = map_of (zip ''0123456789'' [0, 1, 2, 3, 4, 5, 6, 7, 8, 9]) ch"

definition Atoi :: "string \<Rightarrow> int option" where
  "Atoi s =
     (case s of
        [] \<Rightarrow> None
      | ch # r \<Rightarrow>
          (let ds = (if ch = CHR ''-'' \<or> ch = CHR ''+'' then r else s)
           in if ds = [] \<or> (\<exists>d \<in> set ds. digit_of d = None) then None
              else
                (let n = foldl (\<lambda>n d. n * 10 + int (the (digit_of d))) 0 ds
                 in Some (if ch = CHR ''-'' then - n else n))))"

text \<open>\<open>textproto.CanonicalMIMEHeaderKey\<close>, used by \<open>http.Header.Add\<close> and \<open>Get\<close>: a key with
  a byte that is not a token character is left as it is.\<close>

definition validHeaderFieldByte :: "char \<Rightarrow> bool" where
  "validHeaderFieldByte ch \<longleftrightarrow>
     ch \<in> set ''abcdefghijklmnopqrstuvwxyzABCDEFGHIJKLMNOPQRSTUVWXYZ0123456789!#$%&*+-.^_|~''
     \<or> ch = CHR 0x27 \<or> ch = CHR 0x60"

definition toUpper :: "char \<Rightarrow> char" where
  "toUpper ch =
     (case map_of (zip ''abcdefghijklmnopqrstuvwxyz'' ''ABCDEFGHIJKLMNOPQRSTUVWXYZ'') ch of
        Some u \<Rightarrow> u | None \<Rightarrow> ch)"

definition toLower :: "char \<Rightarrow> char" where
  "toLower ch =
     (case map_of (zip ''ABCDEFGHIJKLMNOPQRSTUVWXYZ'' ''abcdefghijklmnopqrstuvwxyz'') ch of
        Some l \<Rightarrow> l | None \<Rightarrow> ch)"

fun canonical :: "bool \<Rightarrow> string \<Rightarrow> string" where
  "canonical upper [] = []"
| "canonical upper (ch # cs) =
     (let ch' = (if upper then toUpper ch else toLower ch)
      in ch' # canonical (ch' = CHR ''-'') cs)"

definition CanonicalMIMEHeaderKey :: "string \<Rightarrow> string" where
  "CanonicalMIMEHeaderKey s =
     (if \<forall>ch \<in> set s. validHeaderFieldByte ch then canonical True s else s)"

text \<open>\<open>http.Header\<close>, a map from the canonical key to the list of its values, as an
  association list with distinct keys.\<close>

type_synonym Header = "(string \<times> string list) list"

definition Header_Add :: "string \<Rightarrow> string \<Rightarrow> Header \<Rightarrow> Header" where
  "Header_Add key val hd0 =
     (let k = CanonicalMIMEHeaderKey key
      in case map_of hd0 k of
           None \<Rightarrow> hd0 @ [(k, [val])]
         | Some vs \<Rightarrow> map (\<lambda>(k', vs'). if k' = k then (k', vs' @ [val]) else (k', vs')) hd0)"

definition Header_Get :: "string \<Rightarrow> Header \<Rightarrow> string" where
  "Header_Get key hd0 =
     (case map_of hd0 (CanonicalMIMEHeaderKey key) of
        None \<Rightarrow> []
      | Some vs \<Rightarrow> (case vs of [] \<Rightarrow> [] | v # r \<Rightarrow> v))"

text \<open>The \<open>http.ResponseWriter\<close>: its header map, the status codes passed to
  \<open>WriteHeader\<close> in the order of the calls, the body written, and the error its \<open>Write\<close>
  returns (if it fails).\<close>

record ResponseWriter =
  rw_header :: Header
  rw_codes :: "int list"
  rw_body :: string
  rw_fail :: "error option"

definition WriteHeader :: "int \<Rightarrow> ResponseWriter \<Rightarrow> ResponseWriter" where
  "WriteHeader code w = w\<lparr>rw_codes := rw_codes w @ [code]\<rparr>"

text \<open>\<open>io.Copy(w, r)\<close> of the bytes left in \<open>r\<close>: nothing is written for an empty rest.\<close>

definition io_Copy :: "ResponseWriter \<Rightarrow> string \<Rightarrow> error option \<times> ResponseWriter" where
  "io_Copy w r =
     (if r = [] then (None, w)
      else case rw_fail w of
             Some e \<Rightarrow> (Some e, w)
           | None \<Rightarrow> (None, w\<lparr>rw_body := rw_body w @ r\<rparr>))"

subsection \<open>writeResponse\<close>

definition StatusInternalServerError :: int where "StatusInternalServerError = 500"
definition StatusFound :: int where "StatusFound = 302"
definition StatusOK :: int where "StatusOK = 200"

text \<open>The header loop. \<open>Inl\<close> is a \<open>return\<close> from inside the loop with its error and the
  response writer; \<open>Inr\<close> is the \<open>break\<close>, with \<open>headers\<close>, \<open>statusCode\<close>, \<open>headerLines\<close>,
  \<open>sawBlankLine\<close> and the bytes left in the reader. Error texts carry the fixed part of
  the format string; the text behind \<open>%q\<close> and \<open>%v\<close> is left out.\<close>

function headerLoop ::
  "ResponseWriter \<Rightarrow> string \<Rightarrow> Header \<Rightarrow> int \<Rightarrow> nat
     \<Rightarrow> (error \<times> ResponseWriter) + (Header \<times> int \<times> nat \<times> bool \<times> string)" where
  "headerLoop w s headers statusCode headerLines =
     (case ReadLine 1024 s of
        ((line, isPrefix, er), rest) \<Rightarrow>
          if isPrefix then
            Inl (Errorf ''long header line from subprocess'', WriteHeader StatusInternalServerError w)
          else if er = Some EOF then Inr (headers, statusCode, headerLines, False, rest)
          else if er \<noteq> None then
            Inl (Errorf ''error reading headers: '', WriteHeader StatusInternalServerError w)
          else if length line = 0 then Inr (headers, statusCode, headerLines, True, rest)
          else
            (case SplitN2 line of
               [p0, p1] \<Rightarrow>
                 (let headerName = TrimSpace p0; headerVal = TrimSpace p1
                  in if headerName = ''Status'' then
                       (if length headerVal < 3 then Inl (Errorf ''bogus status (short): '', w)
                        else
                          (case Atoi (take 3 headerVal) of
                             None \<Rightarrow> Inl (Errorf ''bogus status: '', w)
                           | Some code \<Rightarrow> headerLoop w rest headers code (headerLines + 1)))
                     else
                       headerLoop w rest (Header_Add headerName headerVal headers) statusCode
                         (headerLines + 1))
             | _ \<Rightarrow> Inl (Errorf (''bogus header line: '' @ line), w)))"
  by pat_completeness auto
termination
proof -
  have rl: "length rest < length s" if a: "ReadLine 1024 s = ((line, False, None), rest)"
    for s line rest
  proof (cases "s = []")
    case True
    then show ?thesis using a by (simp add: ReadLine_def)
  next
    case ne: False
    show ?thesis
    proof (cases "LF \<in> set (take 1024 s)")
      case True
      with ne a have "rest = drop (length (takeWhile (\<lambda>ch. ch \<noteq> LF) s) + 1) s"
        by (simp add: ReadLine_def Let_def)
      then show ?thesis using ne by simp
    next
      case nl: False
      show ?thesis
      proof (cases "1024 \<le> length s")
        case True
        with ne nl a show ?thesis by (simp add: ReadLine_def split: if_splits)
      next
        case False
        with ne nl a have "rest = []" by (simp add: ReadLine_def)
        then show ?thesis using ne by simp
      qed
    qed
  qed
  show ?thesis
  proof (relation "measure (\<lambda>(w, s, headers, statusCode, headerLines). length s)", goal_cases)
    case 1
    show ?case by simp
  next
    case (2 w s headers statusCode headerLines x rest line y isPrefix er)
    then have "ReadLine 1024 s = ((line, False, None), rest)" by simp
    then show ?case using rl by simp
  next
    case (3 w s headers statusCode headerLines x rest line y isPrefix er)
    then have "ReadLine 1024 s = ((line, False, None), rest)" by simp
    then show ?case using rl by simp
  qed
qed

declare headerLoop.simps [simp del]

text \<open>\<open>ResponsePipe.writeResponse\<close>, from the response writer and the stdout stream.\<close>

definition writeResponse :: "ResponseWriter \<Rightarrow> string \<Rightarrow> error option \<times> ResponseWriter" where
  "writeResponse w s =
     (case headerLoop w s [] 0 0 of
        Inl (e, w') \<Rightarrow> (Some e, w')
      | Inr (headers, statusCode, headerLines, sawBlankLine, rest) \<Rightarrow>
          if headerLines = 0 \<or> \<not> sawBlankLine then
            (Some (Errorf ''no headers''), WriteHeader StatusInternalServerError w)
          else
            (let statusCode1 =
                   (if Header_Get ''Location'' headers \<noteq> [] \<and> statusCode = 0
                    then StatusFound else statusCode)
             in if statusCode1 = 0 \<and> Header_Get ''Content-Type'' headers = [] then
                  (Some (Errorf ''missing required Content-Type in headers''),
                   WriteHeader StatusInternalServerError w)
                else
                  (let statusCode2 = (if statusCode1 = 0 then StatusOK else statusCode1);
                       w1 = w\<lparr>rw_header :=
                               foldl (\<lambda>hd0 (k, vv). foldl (\<lambda>hd1 v. Header_Add k v hd1) hd0 vv)
                                 (rw_header w) headers\<rparr>;
                       w2 = WriteHeader statusCode2 w1
                   in case io_Copy w2 rest of
                        (Some e, w3) \<Rightarrow> (Some (Errorf ''copy error: ''), w3)
                      | (None, w3) \<Rightarrow> (None, w3))))"

section \<open>The response pipe: WriteTo and the end of ServeHTTP\<close>

text \<open>\<open>NewResponsePipe\<close> makes the two pipes with \<open>io.Pipe\<close>, which has no buffer: a \<open>Write\<close>
  returns when readers have taken all its bytes (a \<open>Write\<close> of no bytes, when one \<open>Read\<close> has
  met it), and a \<open>Read\<close> returns the bytes of the write in progress that fit, or \<open>io.EOF\<close> when
  the writer end is closed. The goroutines started by \<open>Do\<close> write to the two pipes one
  write after the other (\<open>readResponse\<close> for each record it reads, the supervisor for
  each error it receives) and close both writers after the last one.\<close>

datatype pipeWrite = ToStdout string | ToStderr string

fun stdoutWrites :: "pipeWrite list \<Rightarrow> string list" where
  "stdoutWrites [] = []"
| "stdoutWrites (ToStdout c # ws) = c # stdoutWrites ws"
| "stdoutWrites (ToStderr c # ws) = stdoutWrites ws"

fun stderrWrites :: "pipeWrite list \<Rightarrow> string list" where
  "stderrWrites [] = []"
| "stderrWrites (ToStdout c # ws) = stderrWrites ws"
| "stderrWrites (ToStderr c # ws) = c # stderrWrites ws"

subsection \<open>The buffered reader over the stdout pipe\<close>

text \<open>\<open>io.ErrNoProgress\<close>, the error of a \<open>bufio.Reader\<close> after 100 reads without bytes.\<close>

definition ErrNoProgress :: error where
  "ErrNoProgress = Errorf ''multiple Read calls return no data or error''"

text \<open>\<open>bufio.Reader.fill\<close> for a reader of 1024 bytes that holds the unread bytes \<open>b\<close>, fewer
  than 1024, over the writes \<open>cs\<close> still to come, the first being the one in progress:
  up to 100 calls of \<open>Read\<close> (\<open>empties\<close> counts those that have returned nothing) until one
  returns bytes or an error. The result is the buffer, the writes not yet read to their end, and the error
  kept in the reader. After the last write \<open>Read\<close> returns \<open>io.EOF\<close> if the writer end is
  closed then (\<open>closes\<close>); if it stays open, \<open>Read\<close> never returns (\<open>None\<close>).\<close>

fun fill ::
  "nat \<Rightarrow> string \<Rightarrow> string list \<Rightarrow> bool \<Rightarrow> (string \<times> string list \<times> error option) option" where
  "fill empties b [] closes = (if closes then Some (b, [], Some EOF) else None)"
| "fill empties b (c # cs) closes =
     (if c = [] then
        (if 100 \<le> Suc empties then Some (b, cs, Some ErrNoProgress)
         else fill (Suc empties) b cs closes)
      else
        (let n = min (1024 - length b) (length c)
         in Some (b @ take n c, (if n < length c then drop n c # cs else cs), None)))"

text \<open>\<open>bufio.Reader.ReadLine\<close> (with its \<open>ReadSlice\<close>) on that reader: the line, \<open>isPrefix\<close> and
  the error, then the buffer and the writes left. \<open>ReadSlice\<close> looks for \<open>\n\<close> in the
  buffer, then returns the whole buffer if it is full, and fills it otherwise; an error
  met by \<open>fill\<close> ends the line with the bytes in the buffer, and \<open>ReadLine\<close> drops the error
  if there are any.\<close>

function Reader_ReadLine ::
  "string \<Rightarrow> string list \<Rightarrow> bool
     \<Rightarrow> ((string \<times> bool \<times> error option) \<times> string \<times> string list) option" where
  "Reader_ReadLine b cs closes =
     (if LF \<in> set b then
        (let line = takeWhile (\<lambda>ch. ch \<noteq> LF) b
         in Some ((if line \<noteq> [] \<and> last line = CR then butlast line else line, False, None),
                  drop (length line + 1) b, cs))
      else if length b \<ge> 1024 then
        (if last b = CR then Some ((butlast b, True, None), [CR], cs)
         else Some ((b, True, None), [], cs))
      else
        (case fill 0 b cs closes of
           None \<Rightarrow> None
         | Some (b', cs', er) \<Rightarrow>
             if er \<noteq> None then Some ((b', False, if b' = [] then er else None), [], cs')
             else Reader_ReadLine b' cs' closes))"
  by pat_completeness auto
termination
proof -
  have grows: "length b < length b' \<and> length b' \<le> 1024"
    if "fill empties b cs closes = Some (b', cs', None)" and "length b < 1024"
    for empties b cs closes b' cs'
    using that
  proof (induction cs arbitrary: empties)
    case Nil
    then show ?case by (simp split: if_splits)
  next
    case (Cons c cs)
    show ?case
    proof (cases "c = []")
      case True
      with Cons.prems have "fill (Suc empties) b cs closes = Some (b', cs', None)"
        by (simp split: if_splits)
      then show ?thesis using Cons.IH Cons.prems(2) by blast
    next
      case False
      then have "0 < length c" by simp
      with False Cons.prems show ?thesis by (auto simp: Let_def min_def)
    qed
  qed
  show ?thesis
  proof (relation "measure (\<lambda>(b, cs, closes). 1024 - length b)", goal_cases)
    case 1
    show ?case by simp
  next
    case (2 b cs closes r b' y cs' er)
    then have f: "fill 0 b cs closes = Some (b', cs', None)" and l: "length b < 1024"
      by auto
    from grows[OF f l] have "1024 - length b' < 1024 - length b" by arith
    then show ?case by simp
  qed
qed

declare Reader_ReadLine.simps [simp del]

subsection \<open>writeResponse on the pipe\<close>

text \<open>The header loop of \<open>writeResponse\<close> with the reader made explicit. \<open>Inl\<close> is a \<open>return\<close>
  from inside the loop, \<open>Inr\<close> the \<open>break\<close> (\<open>headers\<close>, \<open>statusCode\<close>, \<open>headerLines\<close>,
  \<open>sawBlankLine\<close>); both come with the buffer and the writes not read to their end at
  that moment. \<open>None\<close>: the loop waits in a \<open>Read\<close> that never returns.\<close>

function pipe_headerLoop ::
  "ResponseWriter \<Rightarrow> string \<Rightarrow> string list \<Rightarrow> bool \<Rightarrow> Header \<Rightarrow> int \<Rightarrow> nat
     \<Rightarrow> (((error \<times> ResponseWriter) + (Header \<times> int \<times> nat \<times> bool)) \<times> string \<times> string list) option"
  where
  "pipe_headerLoop w b cs closes headers statusCode headerLines =
     (case Reader_ReadLine b cs closes of
        None \<Rightarrow> None
      | Some ((line, isPrefix, er), b', cs') \<Rightarrow>
          if isPrefix then
            Some (Inl (Errorf ''long header line from subprocess'',
                       WriteHeader StatusInternalServerError w), b', cs')
          else if er = Some EOF then Some (Inr (headers, statusCode, headerLines, False), b', cs')
          else if er \<noteq> None then
            Some (Inl (Errorf ''error reading headers: '',
                       WriteHeader StatusInternalServerError w), b', cs')
          else if length line = 0 then Some (Inr (headers, statusCode, headerLines, True), b', cs')
          else
            (case SplitN2 line of
               [p0, p1] \<Rightarrow>
                 (let headerName = TrimSpace p0; headerVal = TrimSpace p1
                  in if headerName = ''Status'' then
                       (if length headerVal < 3 then
                          Some (Inl (Errorf ''bogus status (short): '', w), b', cs')
                        else
                          (case Atoi (take 3 headerVal) of
                             None \<Rightarrow> Some (Inl (Errorf ''bogus status: '', w), b', cs')
                           | Some code \<Rightarrow>
                               pipe_headerLoop w b' cs' closes headers code (headerLines + 1)))
                     else
                       pipe_headerLoop w b' cs' closes (Header_Add headerName headerVal headers)
                         statusCode (headerLines + 1))
             | _ \<Rightarrow> Some (Inl (Errorf (''bogus header line: '' @ line), w), b', cs')))"
  by pat_completeness auto
termination
proof -
  have keeps: "length b' + sum_list (map length cs') = length b + sum_list (map length cs)"
    if "fill empties b cs closes = Some (b', cs', None)" and "length b < 1024"
    for empties b cs closes b' cs'
    using that
  proof (induction cs arbitrary: empties)
    case Nil
    then show ?case by (simp split: if_splits)
  next
    case (Cons c cs)
    show ?case
    proof (cases "c = []")
      case True
      with Cons.prems have "fill (Suc empties) b cs closes = Some (b', cs', None)"
        by (simp split: if_splits)
      from Cons.IH[OF this Cons.prems(2)] True show ?thesis by simp
    next
      case False
      with Cons.prems show ?thesis by (auto simp: Let_def min_def split: if_splits)
    qed
  qed
  have stops: "b' = b \<and> sum_list (map length cs') \<le> sum_list (map length cs)"
    if "fill empties b cs closes = Some (b', cs', Some e)"
    for empties b cs closes b' cs' e
    using that
  proof (induction cs arbitrary: empties)
    case Nil
    then show ?case by (simp split: if_splits)
  next
    case (Cons c cs)
    show ?case
    proof (cases "c = []")
      case True
      show ?thesis
      proof (cases "100 \<le> Suc empties")
        case t: True
        with True Cons.prems show ?thesis by simp
      next
        case t: False
        with True Cons.prems have "fill (Suc empties) b cs closes = Some (b', cs', Some e)"
          by simp
        from Cons.IH[OF this] True show ?thesis by simp
      qed
    next
      case False
      with Cons.prems show ?thesis by (simp add: Let_def)
    qed
  qed
  have less: "length b' + sum_list (map length cs') < length b + sum_list (map length cs)"
    if "Reader_ReadLine b cs closes = Some ((line, False, None), b', cs')" and "line \<noteq> []"
    for b cs closes line b' cs'
    using that
  proof (induction b cs closes rule: Reader_ReadLine.induct)
    case (1 b cs closes)
    show ?case
    proof (cases "LF \<in> set b")
      case True
      then have "b \<noteq> []" by auto
      from True "1.prems"(1) have "b' = drop (length (takeWhile (\<lambda>ch. ch \<noteq> LF) b) + 1) b"
        and "cs' = cs"
        by (simp_all add: Reader_ReadLine.simps[of b cs closes] Let_def)
      then show ?thesis using \<open>b \<noteq> []\<close> by simp
    next
      case nl: False
      show ?thesis
      proof (cases "length b \<ge> 1024")
        case True
        with nl "1.prems"(1) show ?thesis
          by (simp add: Reader_ReadLine.simps[of b cs closes] split: if_splits)
      next
        case short: False
        show ?thesis
        proof (cases "fill 0 b cs closes")
          case None
          with nl short "1.prems"(1) show ?thesis
            by (simp add: Reader_ReadLine.simps[of b cs closes])
        next
          case (Some r)
          obtain b1 cs1 e1 where r: "r = (b1, cs1, e1)" by (cases r) auto
          show ?thesis
          proof (cases e1)
            case None
            have f: "fill 0 b cs closes = Some (b1, cs1, None)" using Some r None by simp
            have rl: "Reader_ReadLine b1 cs1 closes = Some ((line, False, None), b', cs')"
              using nl short f "1.prems"(1) by (simp add: Reader_ReadLine.simps[of b cs closes])
            have ne: "\<not> None \<noteq> (None :: error option)" by simp
            have "length b' + sum_list (map length cs') < length b1 + sum_list (map length cs1)"
              by (rule "1.IH"[OF nl short f refl refl ne rl "1.prems"(2)])
            moreover have "length b1 + sum_list (map length cs1) = length b + sum_list (map length cs)"
              using keeps[OF f] short by simp
            ultimately show ?thesis by simp
          next
            case (Some e)
            have f: "fill 0 b cs closes = Some (b1, cs1, Some e)"
              using \<open>fill 0 b cs closes = Some r\<close> r Some by simp
            from stops[OF f] have b1: "b1 = b"
              and le: "sum_list (map length cs1) \<le> sum_list (map length cs)" by simp_all
            have "line = b1 \<and> b' = [] \<and> cs' = cs1"
              using nl short f "1.prems"(1)
              by (simp add: Reader_ReadLine.simps[of b cs closes] split: if_splits)
            then have l: "line = b" and e: "b' = []" and c: "cs' = cs1" using b1 by simp_all
            have "0 < length b" using "1.prems"(2) l by simp
            with le have "sum_list (map length cs1) < length b + sum_list (map length cs)"
              by arith
            then show ?thesis unfolding e c by simp
          qed
        qed
      qed
    qed
  qed
  have turn: "length b' + sum_list (map length cs') < length b + sum_list (map length cs)"
    if "Reader_ReadLine b cs closes = Some r" and "(x, y) = r" and "(line, t) = x"
      and "(isPrefix, er) = t" and "(b', cs') = y" and "\<not> isPrefix" and "\<not> er \<noteq> None"
      and "length line \<noteq> 0"
    for b cs closes r x y line t isPrefix er b' cs'
  proof -
    from that have "Reader_ReadLine b cs closes = Some ((line, False, None), b', cs')"
      and "line \<noteq> []"
      by auto
    then show ?thesis by (rule less)
  qed
  show ?thesis
  proof (relation "measure (\<lambda>(w, b, cs, closes, headers, statusCode, headerLines).
                              length b + sum_list (map length cs))", goal_cases)
    case 1
    show ?case by simp
  next
    case 2
    from turn[OF 2(1-6) 2(8) 2(9)] show ?case by simp
  next
    case 3
    from turn[OF 3(1-6) 3(8) 3(9)] show ?case by simp
  qed
qed

declare pipe_headerLoop.simps [simp del]

text \<open>\<open>w.Write(p)\<close> on the response writer; a \<open>Write\<close> of no bytes changes nothing.\<close>

definition ResponseWriter_Write :: "ResponseWriter \<Rightarrow> string \<Rightarrow> error option \<times> ResponseWriter" where
  "ResponseWriter_Write w p =
     (if p = [] then (None, w)
      else case rw_fail w of
             Some e \<Rightarrow> (Some e, w)
           | None \<Rightarrow> (None, w\<lparr>rw_body := rw_body w @ p\<rparr>))"

text \<open>\<open>io.Copy(w, linebody)\<close> is \<open>linebody.WriteTo(w)\<close>: the buffer is written, then the loop
  fills the empty buffer and writes it until \<open>fill\<close> brings nothing; \<open>io.EOF\<close> is not an
  error, any other error of the reader or of \<open>w.Write\<close> is.\<close>

function copyLoop ::
  "ResponseWriter \<Rightarrow> string list \<Rightarrow> bool
     \<Rightarrow> ((error option \<times> ResponseWriter) \<times> string list) option" where
  "copyLoop w cs closes =
     (case fill 0 [] cs closes of
        None \<Rightarrow> None
      | Some (d, cs', er) \<Rightarrow>
          if er \<noteq> None then
            Some ((if er = Some EOF then None else Some (Errorf ''copy error: ''), w), cs')
          else
            (case ResponseWriter_Write w d of
               (ew, w') \<Rightarrow>
                 if ew \<noteq> None then Some ((Some (Errorf ''copy error: ''), w'), cs')
                 else copyLoop w' cs' closes))"
  by pat_completeness auto
termination
proof -
  have less: "sum_list (map length cs') < sum_list (map length cs)"
    if "fill empties [] cs closes = Some (d, cs', None)"
    for empties cs closes d cs'
    using that
  proof (induction cs arbitrary: empties)
    case Nil
    then show ?case by (simp split: if_splits)
  next
    case (Cons c cs)
    show ?case
    proof (cases "c = []")
      case True
      with Cons.prems have "fill (Suc empties) [] cs closes = Some (d, cs', None)"
        by (simp split: if_splits)
      from Cons.IH[OF this] True show ?thesis by simp
    next
      case False
      then have "0 < length c" by simp
      with False Cons.prems show ?thesis by (auto simp: Let_def min_def)
    qed
  qed
  show ?thesis
  proof (relation "measure (\<lambda>(w, cs, closes). sum_list (map length cs))", goal_cases)
    case 1
    show ?case by simp
  next
    case 2
    then show ?case using less by fastforce
  qed
qed

declare copyLoop.simps [simp del]

text \<open>\<open>ResponsePipe.writeResponse\<close> reading the stdout pipe: its error and the response
  writer at its \<open>return\<close>, and the writes it has not read to their end (\<open>None\<close>: it never
  returns).\<close>

definition pipe_writeResponse ::
  "ResponseWriter \<Rightarrow> string list \<Rightarrow> bool
     \<Rightarrow> ((error option \<times> ResponseWriter) \<times> string list) option" where
  "pipe_writeResponse w cs closes =
     (case pipe_headerLoop w [] cs closes [] 0 0 of
        None \<Rightarrow> None
      | Some (Inl (e, w'), b, cs') \<Rightarrow> Some ((Some e, w'), cs')
      | Some (Inr (headers, statusCode, headerLines, sawBlankLine), b, cs') \<Rightarrow>
          if headerLines = 0 \<or> \<not> sawBlankLine then
            Some ((Some (Errorf ''no headers''), WriteHeader StatusInternalServerError w), cs')
          else
            (let statusCode1 =
                   (if Header_Get ''Location'' headers \<noteq> [] \<and> statusCode = 0
                    then StatusFound else statusCode)
             in if statusCode1 = 0 \<and> Header_Get ''Content-Type'' headers = [] then
                  Some ((Some (Errorf ''missing required Content-Type in headers''),
                         WriteHeader StatusInternalServerError w), cs')
                else
                  (let statusCode2 = (if statusCode1 = 0 then StatusOK else statusCode1);
                       w1 = w\<lparr>rw_header :=
                               foldl (\<lambda>hd0 (k, vv). foldl (\<lambda>hd1 v. Header_Add k v hd1) hd0 vv)
                                 (rw_header w) headers\<rparr>;
                       w2 = WriteHeader statusCode2 w1
                   in case ResponseWriter_Write w2 b of
                        (ew, w3) \<Rightarrow>
                          if ew \<noteq> None then Some ((Some (Errorf ''copy error: ''), w3), cs')
                          else copyLoop w3 cs' closes)))"

subsection \<open>writeError and WriteTo\<close>

text \<open>\<open>writeError\<close> is \<open>io.Copy(w, pipes.stdErrReader)\<close> with the writer \<open>ew\<close> (its bytes so far
  and the error its \<open>Write\<close> returns, if it fails): \<open>io.Copy\<close> reads up to 32768 bytes at a
  time and writes them, until \<open>io.EOF\<close> or until a \<open>Write\<close> fails. The result comes with the
  writes not read to their end.\<close>

fun writeError ::
  "string \<times> error option \<Rightarrow> string list \<Rightarrow> bool
     \<Rightarrow> ((error option \<times> (string \<times> error option)) \<times> string list) option" where
  "writeError ew [] closes = (if closes then Some ((None, ew), []) else None)"
| "writeError ew (c # cs) closes =
     (if c = [] then writeError ew cs closes
      else if snd ew \<noteq> None then
        Some ((Some (Errorf ''copy error: ''), ew),
              (if 32768 < length c then drop 32768 c # cs else cs))
      else writeError (fst ew @ c, None) cs closes)"

text \<open>The writes of the producer up to the first one that is not read to its end, when
  the stdout reader reads \<open>kOut\<close> writes to their end and the stderr reader \<open>kErr\<close>; \<open>None\<close>
  when all are.\<close>

fun blockedAt :: "nat \<Rightarrow> nat \<Rightarrow> pipeWrite list \<Rightarrow> pipeWrite list option" where
  "blockedAt kOut kErr [] = None"
| "blockedAt kOut kErr (ToStdout c # ws) =
     (if kOut = 0 then Some [ToStdout c]
      else map_option (\<lambda>pre. ToStdout c # pre) (blockedAt (kOut - 1) kErr ws))"
| "blockedAt kOut kErr (ToStderr c # ws) =
     (if kErr = 0 then Some [ToStderr c]
      else map_option (\<lambda>pre. ToStderr c # pre) (blockedAt kOut (kErr - 1) ws))"

text \<open>The first error in the order in which the two results reach \<open>chErr\<close>; \<open>respFirst\<close>
  says that the result of \<open>writeResponse\<close> is the first.\<close>

definition firstError :: "bool \<Rightarrow> error option \<Rightarrow> error option \<Rightarrow> error option" where
  "firstError respFirst e1 e2 =
     (if respFirst then (case e1 of Some e \<Rightarrow> Some e | None \<Rightarrow> e2)
      else (case e2 of Some e \<Rightarrow> Some e | None \<Rightarrow> e1))"

text \<open>\<open>ResponsePipe.WriteTo\<close> for the writes \<open>ws\<close> that the producer makes, in this order,
  before it closes both writers; the context of the request is not cancelled meanwhile.
  \<open>WriteTo\<close> starts \<open>writeResponse\<close> and \<open>writeError\<close> in two goroutines and waits for both.
  Each reads its pipe until it returns; nothing reads a pipe after that, so a later write
  to it never returns, the producer goes no further and closes nothing. The first run
  (both pipes closed at the end) tells how many writes each reader reads to their end; if
  the producer is stopped at some write, only the writes up to that one reach the readers
  and no pipe is closed, and \<open>WriteTo\<close> returns only if both readers return all the same.\<close>

definition WriteTo ::
  "bool \<Rightarrow> ResponseWriter \<Rightarrow> string \<times> error option \<Rightarrow> pipeWrite list
     \<Rightarrow> (error option \<times> ResponseWriter \<times> (string \<times> error option)) outcome" where
  "WriteTo respFirst rw ew ws =
     (case (pipe_writeResponse rw (stdoutWrites ws) True, writeError ew (stderrWrites ws) True) of
        (Some ((e1, rw1), left1), Some ((e2, ew1), left2)) \<Rightarrow>
          (case blockedAt (length (stdoutWrites ws) - length left1)
                  (length (stderrWrites ws) - length left2) ws of
             None \<Rightarrow> Returns (firstError respFirst e1 e2, rw1, ew1)
           | Some pre \<Rightarrow>
               (case (pipe_writeResponse rw (stdoutWrites pre) False,
                      writeError ew (stderrWrites pre) False) of
                  (Some ((e1', rw1'), left1'), Some ((e2', ew1'), left2')) \<Rightarrow>
                    Returns (firstError respFirst e1' e2', rw1', ew1')
                | _ \<Rightarrow> Blocks))
      | _ \<Rightarrow> Blocks)"

subsection \<open>The end of ServeHTTP (handler.go)\<close>

text \<open>\<open>http.Header.Set\<close> and \<open>Del\<close>, and \<open>http.Error\<close>: it deletes \<open>Content-Length\<close>, sets the
  two headers, calls \<open>WriteHeader\<close> with the code and writes the message and a newline.\<close>

definition Header_Del :: "string \<Rightarrow> Header \<Rightarrow> Header" where
  "Header_Del key hd0 = filter (\<lambda>kv. fst kv \<noteq> CanonicalMIMEHeaderKey key) hd0"

definition Header_Set :: "string \<Rightarrow> string \<Rightarrow> Header \<Rightarrow> Header" where
  "Header_Set key val hd0 =
     (let k = CanonicalMIMEHeaderKey key
      in case map_of hd0 k of
           None \<Rightarrow> hd0 @ [(k, [val])]
         | Some vs \<Rightarrow> map (\<lambda>(k', vs'). if k' = k then (k', [val]) else (k', vs')) hd0)"

definition http_Error :: "ResponseWriter \<Rightarrow> string \<Rightarrow> int \<Rightarrow> ResponseWriter" where
  "http_Error w msg code =
     (let w1 = w\<lparr>rw_header :=
                   Header_Set ''X-Content-Type-Options'' ''nosniff''
                     (Header_Set ''Content-Type'' ''text/plain; charset=utf-8''
                        (Header_Del ''Content-Length'' (rw_header w)))\<rparr>;
          w2 = WriteHeader code w1
      in snd (ResponseWriter_Write w2 (msg @ [LF])))"

text \<open>\<open>ServeHTTP\<close> from \<open>resp.WriteTo(w, errBuffer)\<close> on: \<open>errBuffer\<close> is a fresh
  \<open>bytes.Buffer\<close>, and an error of \<open>WriteTo\<close> is answered with \<open>http.Error\<close> and status 500.
  The result is the response writer when \<open>ServeHTTP\<close> returns.\<close>

definition ServeHTTP_WriteTo :: "bool \<Rightarrow> ResponseWriter \<Rightarrow> pipeWrite list \<Rightarrow> ResponseWriter outcome" where
  "ServeHTTP_WriteTo respFirst w ws =
     (case WriteTo respFirst w ([], None) ws of
        Returns (Some e, w', ew) \<Rightarrow>
          Returns (http_Error w' ''failed to write stream'' StatusInternalServerError)
      | Returns (None, w', ew) \<Rightarrow> Returns w'
      | Blocks \<Rightarrow> Blocks
      | Panics \<Rightarrow> Panics)"

text \<open>The number of empty writes among \<open>cs\<close>.\<close>

definition emptyWrites :: "string list \<Rightarrow> nat" where
  "emptyWrites cs = length (filter (\<lambda>c. c = []) cs)"

section \<open>The records on the wire\<close>

text \<open>The framed record of the FastCGI data model, written with numbers: version 1, the
  type, the request id and the content length in network byte order, the padding length
  \<open>(- length b) mod 8\<close>, the reserved byte, then the content and the padding.
  \<open>writeRecord\<close> is compared with it below.\<close>

definition padding_of :: "nat \<Rightarrow> nat" where
  "padding_of l = nat ((- int l) mod 8)"

definition frame :: "byte \<Rightarrow> recType \<Rightarrow> u16 \<Rightarrow> byte list \<Rightarrow> byte list" where
  "frame rsv rt rid b =
     [1, rt, of_nat (unat rid div 256), of_nat (unat rid mod 256),
      of_nat (length b div 256), of_nat (length b mod 256),
      of_nat (padding_of (length b)), rsv]
     @ b @ replicate (padding_of (length b)) 0"

text \<open>Cutting a byte string into pieces of \<open>n\<close> bytes, the last one shorter: the
  contents of the records a stream writer is to emit for it.\<close>

function chop :: "nat \<Rightarrow> 'a list \<Rightarrow> 'a list list" where
  "chop n xs = (if n = 0 \<or> xs = [] then [] else take n xs # chop n (drop n xs))"
  by pat_completeness auto
termination
  by (relation "measure (\<lambda>(n, xs). length xs)") auto

declare chop.simps [simp del]

text \<open>The state of a stream after it has been handed the byte strings \<open>bss\<close>, one
  \<open>Write\<close> each.\<close>

definition after_writes :: "'s writeFn \<Rightarrow> 's \<Rightarrow> byte list list \<Rightarrow> 's" where
  "after_writes wr s bss = foldl (\<lambda>s' bs. fst (wr s' bs)) s bss"

text \<open>A stream that records every \<open>Write\<close> it receives and never fails: its state is
  the list of the byte strings written, oldest first.\<close>

definition wire_Write :: "byte list list writeFn" where
  "wire_Write s bs = (s @ [bs], None)"

text \<open>A stream whose \<open>Write\<close> always fails (a closed socket).\<close>

definition closed_Write :: "byte list list writeFn" where
  "closed_Write s bs = (s, Some (Errorf ''use of closed network connection''))"

section \<open>Name-value pairs on the wire\<close>

text \<open>The bytes \<open>encodeSize\<close> writes for a length, and the bytes \<open>writePairs\<close> writes for
  one pair: the two lengths (\<open>uint32(len(k))\<close>, \<open>uint32(len(v))\<close>), the name, the value.\<close>

definition sizeBytes :: "u32 \<Rightarrow> byte list" where
  "sizeBytes size0 =
     (if size0 > 127 then putUint32 (size0 OR push_bit 31 1) else [ucast size0])"

definition pairBytes :: "string \<times> string \<Rightarrow> byte list" where
  "pairBytes kv =
     sizeBytes (of_nat (length (fst kv))) @ sizeBytes (of_nat (length (snd kv)))
       @ bytes_of (fst kv) @ bytes_of (snd kv)"

text \<open>Reading the pairs back, as the round trip describes it: for every pair the name
  length and the value length with \<open>readSize\<close>, then the name and the value with
  \<open>readString\<close>, until the bytes are used up; \<open>None\<close> when a length cannot be read or the
  bytes left are fewer than the two lengths ask for. The client itself has no such loop.\<close>

function decodePairs :: "byte list \<Rightarrow> (string \<times> string) list option" where
  "decodePairs bs =
     (if bs = [] then Some []
      else
        (case readSize bs of (keyLen, n) \<Rightarrow>
           if n = 0 then None
           else
             (case readSize (drop n bs) of (valLen, m) \<Rightarrow>
                if m = 0 then None
                else if unat keyLen + unat valLen > length (drop m (drop n bs)) then None
                else
                  map_option
                    ((#) (readString (drop m (drop n bs)) keyLen,
                          readString (drop (unat keyLen) (drop m (drop n bs))) valLen))
                    (decodePairs
                       (drop (unat valLen) (drop (unat keyLen) (drop m (drop n bs))))))))"
  by pat_completeness auto
termination
proof (relation "measure length", goal_cases)
  case 1
  show ?case by simp
next
  case 2
  then show ?case by auto
qed

declare decodePairs.simps [simp del]

text \<open>The content bytes of the records in a list of written byte strings, each read with
  \<open>record.read\<close> and \<open>content\<close>, one after the other.\<close>

definition wire_contents :: "byte list list \<Rightarrow> byte list" where
  "wire_contents ws =
     concat (map (\<lambda>bs. case read bs of Inl e \<Rightarrow> [] | Inr (rc, r) \<Rightarrow> content rc) ws)"

text \<open>\<open>emits wr c w qs c'\<close>: between the connection states \<open>c\<close> and \<open>c'\<close> the stream has
  been handed one record of the stream writer \<open>w\<close> for each of the contents \<open>qs\<close>, each
  non-empty and at most \<open>maxWrite\<close> bytes long.\<close>

definition emits ::
  "'s writeFn \<Rightarrow> 's conn \<Rightarrow> streamWriter \<Rightarrow> byte list list \<Rightarrow> 's conn \<Rightarrow> bool" where
  "emits wr c w qs c' \<longleftrightarrow>
     rwc c' = after_writes wr (rwc c) (map (frame (Reserved (h c)) (recType w) (reqID w)) qs)
     \<and> Reserved (h c') = Reserved (h c)
     \<and> list_all (\<lambda>q. q \<noteq> [] \<and> length q \<le> maxWrite) qs"

section \<open>The status of a well-formed header block\<close>

text \<open>A header line as it stands in the stream before its \<open>\n\<close> (it may end with \<open>\r\<close>),
  the name and the value the parser takes from it, and the lines the header loop goes
  through without an error: no \<open>\n\<close> inside, shorter than the 1024-byte buffer of the
  reader, not empty, with a colon, and, for the name \<open>Status\<close>, a value of at least three
  bytes that start with a decimal number.\<close>

definition chomp :: "string \<Rightarrow> string" where
  "chomp l = (if l \<noteq> [] \<and> last l = CR then butlast l else l)"

definition parseLine :: "string \<Rightarrow> string \<times> string" where
  "parseLine l =
     (TrimSpace (takeWhile (\<lambda>ch. ch \<noteq> CHR '':'') (chomp l)),
      TrimSpace (tl (dropWhile (\<lambda>ch. ch \<noteq> CHR '':'') (chomp l))))"

definition wellFormedLine :: "string \<Rightarrow> bool" where
  "wellFormedLine l \<longleftrightarrow>
     LF \<notin> set l \<and> length l < 1024 \<and> chomp l \<noteq> [] \<and> CHR '':'' \<in> set (chomp l)
     \<and> (if fst (parseLine l) = ''Status''
         then 3 \<le> length (snd (parseLine l)) \<and> Atoi (take 3 (snd (parseLine l))) \<noteq> None
         else True)"

text \<open>A \<open>Status\<close> line that stops the loop: its value has fewer than three bytes, or its
  first three bytes are not a decimal number.\<close>

definition bogusStatusLine :: "string \<Rightarrow> bool" where
  "bogusStatusLine l \<longleftrightarrow>
     LF \<notin> set l \<and> length l < 1024 \<and> chomp l \<noteq> [] \<and> CHR '':'' \<in> set (chomp l)
     \<and> fst (parseLine l) = ''Status''
     \<and> (length (snd (parseLine l)) < 3 \<or> Atoi (take 3 (snd (parseLine l))) = None)"

text \<open>The selection of the status, after the claim: the codes of the \<open>Status\<close> lines (the
  last one counts), the other headers in the header map, and the choice between the
  \<open>Status\<close> code, 302 for a \<open>Location\<close>, the failure for a missing \<open>Content-Type\<close>
  (\<open>None\<close>) and 200. A code 0 counts as no \<open>Status\<close>, and a header whose first value
  is empty counts as absent.\<close>

definition statusCodes :: "(string \<times> string) list \<Rightarrow> int list" where
  "statusCodes nvs = map (\<lambda>nv. the (Atoi (take 3 (snd nv)))) (filter (\<lambda>nv. fst nv = ''Status'') nvs)"

definition otherHeaders :: "Header \<Rightarrow> (string \<times> string) list \<Rightarrow> Header" where
  "otherHeaders hd0 nvs =
     foldl (\<lambda>hd1 nv. Header_Add (fst nv) (snd nv) hd1) hd0 (filter (\<lambda>nv. fst nv \<noteq> ''Status'') nvs)"

definition selectStatus :: "(string \<times> string) list \<Rightarrow> int option" where
  "selectStatus nvs =
     (let code = (if statusCodes nvs = [] then 0 else last (statusCodes nvs))
      in if code \<noteq> 0 then Some code
         else if Header_Get ''Location'' (otherHeaders [] nvs) \<noteq> [] then Some 302
         else if Header_Get ''Content-Type'' (otherHeaders [] nvs) = [] then None
         else Some 200)"

text \<open>One turn of the header loop on a well-formed line: what it does to \<open>headers\<close> and
  \<open>statusCode\<close>.\<close>

definition headerStep :: "Header \<times> int \<Rightarrow> string \<Rightarrow> Header \<times> int" where
  "headerStep st l =
     (if fst (parseLine l) = ''Status'' then (fst st, the (Atoi (take 3 (snd (parseLine l)))))
      else (Header_Add (fst (parseLine l)) (snd (parseLine l)) (fst st), snd st))"


section \<open>Facts about bytes and words\<close>

lemma int_and_7: "(x::int) AND 7 = x mod 8"
  using take_bit_eq_mask[of 3 x] by (simp add: take_bit_eq_mod mask_eq_exp_minus_1)

lemma padding_of_less: "padding_of l < 8"
  unfolding padding_of_def by (simp add: nat_less_iff)

lemma padding_of_sum: "(l + padding_of l) mod 8 = 0"
proof -
  have "int ((l + padding_of l) mod 8) = (int l + (- int l) mod 8) mod 8"
    unfolding padding_of_def by (simp add: zmod_int)
  also have "\<dots> = 0"
    by (simp add: mod_add_right_eq)
  finally show ?thesis by simp
qed

lemma lt31: assumes "v < 2 ^ 31" shows "take_bit 31 (v::u32) = v"
  using less_mask_eq[OF assms] by (simp add: take_bit_eq_mask)

lemma clear_hi:
  assumes "v < 2 ^ 31"
  shows "(v OR push_bit 31 1) AND NOT (push_bit 31 1) = (v :: u32)"
proof -
  have "(take_bit 31 v OR push_bit 31 1) AND NOT (push_bit 31 1) = take_bit 31 v"
    by (rule bit_word_eqI) (auto simp add: bit_simps simp del: push_bit_of_1)
  then show ?thesis by (simp only: lt31[OF assms])
qed

lemma le127: assumes "v \<le> 127" shows "take_bit 7 (v::u32) = v"
proof -
  have "v < 2 ^ 7" using assms by (simp add: word_le_nat_alt word_less_nat_alt)
  then show ?thesis using less_mask_eq[of v 7] by (simp add: take_bit_eq_mask)
qed

lemma ucast_ucast_small:
  assumes "v \<le> 127" shows "(ucast (ucast (v::u32) :: byte) :: u32) = v"
proof -
  have "(ucast (ucast (take_bit 7 v) :: byte) :: u32) = take_bit 7 v"
    by (rule bit_word_eqI) (auto simp: bit_simps)
  then show ?thesis by (simp only: le127[OF assms])
qed

lemma small_and_128: assumes "v \<le> 127" shows "(v::u32) AND push_bit 7 1 = 0"
proof -
  have "take_bit 7 v AND push_bit 7 1 = 0"
    by (rule bit_word_eqI) (auto simp add: bit_simps simp del: push_bit_of_1)
  then show ?thesis by (simp only: le127[OF assms])
qed

lemma small_byte_bit7: assumes "v \<le> 127" shows "\<not> bit (ucast (v::u32) :: byte) 7"
proof -
  have "\<not> bit (ucast (take_bit 7 v) :: byte) 7"
    by (simp add: bit_simps)
  then show ?thesis by (simp only: le127[OF assms] simp_thms)
qed

lemma hi_byte_and_128:
  "(ucast (ucast (drop_bit 24 (v OR push_bit 31 1 :: u32)) :: byte) :: u32) AND push_bit 7 1 \<noteq> 0"
  apply (rule notI)
  apply (drule_tac f="\<lambda>w. bit w 7" in arg_cong)
  apply (simp add: bit_simps del: push_bit_of_1)
  done

lemma hi_byte_bit7: "bit (ucast (drop_bit 24 (v OR push_bit 31 1 :: u32)) :: byte) 7"
  by (simp add: bit_simps del: push_bit_of_1)

lemma uint32_be_split:
  "uint32_be (ucast (drop_bit 24 v)) (ucast (drop_bit 16 v)) (ucast (drop_bit 8 v)) (ucast v) = (v::u32)"
  unfolding uint32_be_def
  apply (rule bit_word_eqI)
  subgoal for n
    apply (cases "n < 8"; cases "n < 16"; cases "n < 24")
           apply (auto simp: bit_simps not_less)
    done
  done

lemma uint16_be_split: "uint16_be (ucast (drop_bit 8 v)) (ucast v) = (v::u16)"
  unfolding uint16_be_def
  apply (rule bit_word_eqI)
  subgoal for n
    apply (cases "n < 8")
     apply (auto simp: bit_simps not_less)
    done
  done

lemma hi_byte_u16: "(ucast (drop_bit 8 (v::u16)) :: byte) = of_nat (unat v div 256)"
proof (rule word_unat_eq_iff[THEN iffD2])
  have "unat v < 65536" using unsigned_less[of v, where 'a = nat] by simp
  then have "unat v div 256 < 256" by simp
  then show "unat (ucast (drop_bit 8 v) :: byte) = unat (of_nat (unat v div 256) :: byte)"
    by (simp add: unsigned_ucast_eq unat_drop_bit_eq unat_of_nat take_bit_eq_mod drop_bit_eq_div unat_div)
qed

lemma lo_byte_u16: "(ucast (v::u16) :: byte) = of_nat (unat v mod 256)"
  by (rule word_unat_eq_iff[THEN iffD2])
     (simp add: unsigned_ucast_eq unat_of_nat take_bit_eq_mod)

lemma putUint16_nat: "putUint16 v = [of_nat (unat v div 256), of_nat (unat v mod 256)]"
  by (simp only: putUint16_def hi_byte_u16) (simp only: lo_byte_u16)

lemma unat_of_nat_u16: "l \<le> 65535 \<Longrightarrow> unat (of_nat l :: u16) = l"
  by (simp add: unat_of_nat)

lemma unat_of_nat_byte: "l \<le> 255 \<Longrightarrow> unat (of_nat l :: byte) = l"
  by (simp add: unat_of_nat)

lemma init_nat:
  "init rt rid (int l) hd0 =
     hd0\<lparr>Version := 1, Type := rt, ID := rid, ContentLength := of_nat l,
         PaddingLength := of_nat (padding_of l)\<rparr>"
proof -
  have "(word_of_int ((- int l) mod 8) :: byte) = of_nat (padding_of l)"
    unfolding padding_of_def by (simp add: of_nat_nat)
  then show ?thesis by (simp add: init_def int_and_7)
qed

lemma replicate_5: "replicate 5 x = [x, x, x, x, x]"
  by (simp add: numeral_eq_Suc)

lemma take_pad: "p < 8 \<Longrightarrow> take p pad = replicate p 0"
  by (simp add: pad_def maxPad_def)

lemma writeRecord_frame:
  assumes "length b \<le> 65535"
  shows "writeRecord wr rt rid b c =
     (let bytes = frame (Reserved (h c)) rt rid b;
          (s', e) = wr (rwc c) bytes
      in (e, c\<lparr>rwc := s', buf := bytes,
               h := (h c)\<lparr>Version := 1, Type := rt, ID := rid,
                          ContentLength := of_nat (length b),
                          PaddingLength := of_nat (padding_of (length b))\<rparr>\<rparr>))"
proof -
  have p: "padding_of (length b) < 8" by (rule padding_of_less)
  then have up: "unat (of_nat (padding_of (length b)) :: byte) = padding_of (length b)"
    by (simp add: unat_of_nat_byte)
  have ul: "unat (of_nat (length b) :: u16) = length b"
    using assms by (simp add: unat_of_nat_u16)
  have "header_bytes (init rt rid (int (length b)) (h c)) @ b
          @ take (unat (PaddingLength (init rt rid (int (length b)) (h c)))) pad
        = frame (Reserved (h c)) rt rid b"
    by (simp add: init_nat header_bytes_def putUint16_nat up ul take_pad[OF p] frame_def)
  then show ?thesis
    by (simp add: writeRecord_def Let_def init_nat split: prod.splits)
qed

lemma byte_of_u32: "(ucast (drop_bit k (v::u32)) :: byte) = of_nat (unat v div 2 ^ k mod 256)"
  by (rule word_unat_eq_iff[THEN iffD2], simp only: unsigned_ucast_eq unat_drop_bit_eq)
     (simp add: take_bit_eq_mod drop_bit_eq_div unat_of_nat)

lemma lo_byte_of_u32: "(ucast (v::u32) :: byte) = of_nat (unat v mod 256)"
  by (rule word_unat_eq_iff[THEN iffD2]) (simp add: unsigned_ucast_eq take_bit_eq_mod unat_of_nat)

lemma putUint32_nat:
  "putUint32 v = [of_nat (unat v div 16777216 mod 256), of_nat (unat v div 65536 mod 256),
                  of_nat (unat v div 256 mod 256), of_nat (unat v mod 256)]"
  by (simp only: putUint32_def byte_of_u32) (simp add: lo_byte_of_u32)

lemma unat_or_hi:
  assumes "v < 2 ^ 31"
  shows "unat ((v::u32) OR push_bit 31 1) = unat v + 2147483648"
proof -
  have "take_bit 31 v AND push_bit 31 1 = 0"
    by (rule bit_word_eqI) (auto simp add: bit_simps simp del: push_bit_of_1)
  then have z: "v AND push_bit 31 1 = 0" by (simp only: lt31[OF assms])
  have "v + push_bit 31 1 = v OR push_bit 31 1"
    by (rule disjunctive_add_eq_or) (rule z)
  then have "unat (v OR push_bit 31 1) = unat (v + push_bit 31 1)" by (simp only:)
  moreover have "unat v < 2147483648" using assms by (simp add: word_less_nat_alt)
  ultimately show ?thesis by (simp add: unat_word_ariths)
qed


subsection \<open>readSize after encodeSize\<close>

lemma readSize_small: "v \<le> 127 \<Longrightarrow> readSize (ucast v # rest) = (v, 1)"
  by (simp add: readSize_def Let_def ucast_ucast_small small_and_128 del: push_bit_of_1)

lemma readSize_long_form:
  assumes "(ucast (ucast (drop_bit 24 w) :: byte) :: u32) AND push_bit 7 1 \<noteq> 0"
  shows "readSize (putUint32 w @ rest) = (w AND NOT (push_bit 31 1), 4)"
  using assms
  by (simp add: readSize_def Let_def putUint32_def uint32_be_split del: push_bit_of_1)

lemma readSize_big:
  assumes "v < 2 ^ 31"
  shows "readSize (putUint32 (v OR push_bit 31 1) @ rest) = (v, 4)"
  using readSize_long_form[OF hi_byte_and_128, of v rest] by (simp only: clear_hi[OF assms])

lemma le_max31: "(v::u32) \<le> 2147483647 \<Longrightarrow> v < 2 ^ 31"
  by (simp add: word_le_nat_alt word_less_nat_alt)

lemma encodeSize_small:
  assumes "size0 \<le> 127" and "1 \<le> length b"
  shows "encodeSize b size0 = Inr (ucast size0 # drop 1 b, 1)"
    and "unat (ucast size0 :: byte) = unat size0"
proof -
  have n: "\<not> 127 < size0" using assms(1) by simp
  show "encodeSize b size0 = Inr (ucast size0 # drop 1 b, 1)"
    using assms(2) n by (cases b) (simp_all add: encodeSize_def)
  have "unat size0 \<le> 127" using assms(1) by (simp add: word_le_nat_alt)
  then show "unat (ucast size0 :: byte) = unat size0"
    by (simp add: unsigned_ucast_eq take_bit_eq_mod)
qed

lemma encodeSize_big:
  assumes "127 < size0" and "size0 < 2 ^ 31" and "4 \<le> length b"
  shows "encodeSize b size0 = Inr (putUint32 (size0 OR push_bit 31 1) @ drop 4 b, 4)"
    and "readSize (putUint32 (size0 OR push_bit 31 1) @ rest) = (size0, 4)"
    and "bit (hd (putUint32 (size0 OR push_bit 31 1))) 7"
    and "putUint32 (size0 OR push_bit 31 1) =
           [of_nat ((unat size0 + 2147483648) div 16777216 mod 256),
            of_nat ((unat size0 + 2147483648) div 65536 mod 256),
            of_nat ((unat size0 + 2147483648) div 256 mod 256),
            of_nat ((unat size0 + 2147483648) mod 256)]"
proof -
  show "encodeSize b size0 = Inr (putUint32 (size0 OR push_bit 31 1) @ drop 4 b, 4)"
    using assms(1,3) by (simp add: encodeSize_def del: push_bit_of_1)
  show "readSize (putUint32 (size0 OR push_bit 31 1) @ rest) = (size0, 4)"
    by (rule readSize_big[OF assms(2)])
  show "bit (hd (putUint32 (size0 OR push_bit 31 1))) 7"
    using hi_byte_bit7[of size0] by (simp add: putUint32_def del: push_bit_of_1)
  show "putUint32 (size0 OR push_bit 31 1) =
           [of_nat ((unat size0 + 2147483648) div 16777216 mod 256),
            of_nat ((unat size0 + 2147483648) div 65536 mod 256),
            of_nat ((unat size0 + 2147483648) div 256 mod 256),
            of_nat ((unat size0 + 2147483648) mod 256)]"
    by (simp only: putUint32_nat unat_or_hi[OF assms(2)])
qed


subsection \<open>Reading back a written record\<close>

lemma frame_length: "length (frame rsv rt rid b) = 8 + length b + padding_of (length b)"
  by (simp add: frame_def)

lemma uint16_be_unat:
  "uint16_be (of_nat (unat (v::u16) div 256)) (of_nat (unat v mod 256)) = v"
proof -
  have "uint16_be (ucast (drop_bit 8 v)) (ucast v) = v" by (rule uint16_be_split)
  then show ?thesis by (simp only: hi_byte_u16, simp only: lo_byte_u16)
qed

lemma uint16_be_nat:
  "l \<le> 65535 \<Longrightarrow> uint16_be (of_nat (l div 256)) (of_nat (l mod 256)) = (of_nat l :: u16)"
  using uint16_be_unat[of "of_nat l"] by (simp only: unat_of_nat_u16)

lemma padding_of_0: "padding_of 0 = 0"
  by (simp add: padding_of_def)

lemma read_frame:
  assumes "length b \<le> 65535"
  shows "read (frame rsv rt rid b @ rest) =
           Inr (\<lparr>rec_h = \<lparr>Version = 1, Type = rt, ID = rid, ContentLength = of_nat (length b),
                           PaddingLength = of_nat (padding_of (length b)), Reserved = rsv\<rparr>,
                  rec_buf = b @ replicate (padding_of (length b)) 0\<rparr>, rest)"
proof -
  have p: "padding_of (length b) < 8" by (rule padding_of_less)
  then have up: "unat (of_nat (padding_of (length b)) :: byte) = padding_of (length b)"
    by (simp add: unat_of_nat_byte)
  have ul: "unat (of_nat (length b) :: u16) = length b"
    using assms by (simp add: unat_of_nat_u16)
  show ?thesis
    by (simp add: read_def frame_def Let_def uint16_be_unat uint16_be_nat[OF assms] up ul
        padding_of_0)
qed

lemma content_read_frame:
  assumes "length b \<le> 65535"
  shows "map_sum id (\<lambda>(rc, r). (content rc, r)) (read (frame rsv rt rid b @ rest)) = Inr (b, rest)"
  using assms by (simp add: read_frame content_def unat_of_nat_u16)


section \<open>The stream writer\<close>

lemma chop_Nil: "chop n [] = []"
  by (subst chop.simps) simp

lemma chop_Cons: "0 < n \<Longrightarrow> xs \<noteq> [] \<Longrightarrow> chop n xs = take n xs # chop n (drop n xs)"
  by (subst chop.simps) simp

lemma concat_chop: "0 < n \<Longrightarrow> concat (chop n xs) = xs"
proof (induction n xs rule: chop.induct)
  case (1 n xs)
  show ?case
  proof (cases "xs = []")
    case True
    then show ?thesis by (simp add: chop_Nil)
  next
    case False
    with 1 show ?thesis by (simp add: chop_Cons)
  qed
qed

lemma chop_pieces: "0 < n \<Longrightarrow> q \<in> set (chop n xs) \<Longrightarrow> q \<noteq> [] \<and> length q \<le> n"
proof (induction n xs rule: chop.induct)
  case (1 n xs)
  show ?case
  proof (cases "xs = []")
    case True
    with 1 show ?thesis by (simp add: chop_Nil)
  next
    case False
    with 1 show ?thesis by (auto simp: chop_Cons)
  qed
qed

lemma chop_short: "0 < n \<Longrightarrow> xs \<noteq> [] \<Longrightarrow> length xs \<le> n \<Longrightarrow> chop n xs = [xs]"
  by (simp add: chop_Cons chop_Nil)

lemma after_writes_Nil: "after_writes wr s [] = s"
  by (simp add: after_writes_def)

lemma after_writes_Cons: "after_writes wr s (bs # bss) = after_writes wr (fst (wr s bs)) bss"
  by (simp add: after_writes_def)

lemma after_writes_append:
  "after_writes wr s (xs @ ys) = after_writes wr (after_writes wr s xs) ys"
  by (simp add: after_writes_def)

lemma after_writes_wire: "after_writes wire_Write s bss = s @ bss"
  by (induction bss arbitrary: s) (simp_all add: after_writes_def wire_Write_def)

lemma writeRecord_nofail:
  assumes "\<forall>s bs. snd (wr s bs) = None" and "length b \<le> 65535"
  shows "fst (writeRecord wr rt rid b c) = None"
    and "rwc (snd (writeRecord wr rt rid b c)) = fst (wr (rwc c) (frame (Reserved (h c)) rt rid b))"
    and "Reserved (h (snd (writeRecord wr rt rid b c))) = Reserved (h c)"
proof -
  obtain s' e where w: "wr (rwc c) (frame (Reserved (h c)) rt rid b) = (s', e)"
    by (cases "wr (rwc c) (frame (Reserved (h c)) rt rid b)") auto
  with assms(1) have e: "e = None" by (metis snd_conv)
  show "fst (writeRecord wr rt rid b c) = None"
    by (simp add: writeRecord_frame[OF assms(2)] Let_def w e)
  show "rwc (snd (writeRecord wr rt rid b c)) = fst (wr (rwc c) (frame (Reserved (h c)) rt rid b))"
    by (simp add: writeRecord_frame[OF assms(2)] Let_def w)
  show "Reserved (h (snd (writeRecord wr rt rid b c))) = Reserved (h c)"
    by (simp add: writeRecord_frame[OF assms(2)] Let_def w)
qed

lemma streamWriter_Write_loop_nofail:
  assumes "\<forall>s bs. snd (wr s bs) = None"
  shows "fst (streamWriter_Write_loop wr w p nn c) = (nn + length p, None)
       \<and> rwc (snd (streamWriter_Write_loop wr w p nn c))
           = after_writes wr (rwc c)
               (map (frame (Reserved (h c)) (recType w) (reqID w)) (chop maxWrite p))
       \<and> Reserved (h (snd (streamWriter_Write_loop wr w p nn c))) = Reserved (h c)"
  using assms
proof (induction wr w p nn c rule: streamWriter_Write_loop.induct)
  case (1 wr w p nn c)
  show ?case
  proof (cases "length p > 0")
    case False
    then show ?thesis
      by (subst (1 2 3) streamWriter_Write_loop.simps) (simp add: chop_Nil after_writes_Nil)
  next
    case True
    let ?n = "if length p > maxWrite then maxWrite else length p"
    have tk: "take ?n p = take maxWrite p" and dr: "drop ?n p = drop maxWrite p" by simp_all
    have len: "length (take ?n p) \<le> 65535" by (simp add: maxWrite_def)
    obtain e1 c1 where wr1: "writeRecord wr (recType w) (reqID w) (take ?n p) c = (e1, c1)"
      by (cases "writeRecord wr (recType w) (reqID w) (take ?n p) c") auto
    note nf = writeRecord_nofail[OF "1.prems" len, of "recType w" "reqID w" c, unfolded wr1, simplified]
    have e1: "e1 = None" using nf(1) .
    note ih = "1.IH"[OF True refl wr1[symmetric] e1 "1.prems"]
    have ne: "p \<noteq> []" using True by simp
    have ch: "chop maxWrite p = take maxWrite p # chop maxWrite (drop maxWrite p)"
      using ne by (simp add: chop_Cons maxWrite_def)
    have unf: "streamWriter_Write_loop wr w p nn c
                 = streamWriter_Write_loop wr w (drop ?n p) (nn + ?n) c1"
      using True wr1 e1 by (subst streamWriter_Write_loop.simps) (simp add: Let_def)
    have l: "nn + ?n + length (drop ?n p) = nn + length p" by simp
    show ?thesis
      unfolding unf using ih l nf(2,3)
      by (simp add: ch tk dr after_writes_Cons)
  qed
qed

lemma streamWriter_Close_frame:
  "streamWriter_Close wr w c = writeRecord wr (recType w) (reqID w) [] c"
  by (simp add: streamWriter_Close_def)

lemma frame_empty:
  "frame rsv rt rid [] = [1, rt, of_nat (unat rid div 256), of_nat (unat rid mod 256), 0, 0, 0, rsv]"
  by (simp add: frame_def padding_of_0)



section \<open>The buffered writer over a stream that does not fail\<close>

lemma emits_Nil: "emits wr c w [] c"
  by (simp add: emits_def after_writes_Nil)

lemma emits_trans:
  assumes "emits wr c w qs c'" and "emits wr c' w qs' c''"
  shows "emits wr c w (qs @ qs') c''"
  using assms by (simp add: emits_def after_writes_append)

lemma streamWriter_Write_emits:
  assumes "\<forall>s bs. snd (wr s bs) = None"
  shows "\<exists>c'. streamWriter_Write wr w p c = ((length p, None), c')
              \<and> emits wr c w (chop maxWrite p) c'"
proof -
  note l = streamWriter_Write_loop_nofail[OF assms, of w p 0 c]
  have pc: "list_all (\<lambda>q. q \<noteq> [] \<and> length q \<le> maxWrite) (chop maxWrite p)"
    using chop_pieces[of maxWrite _ p] by (auto simp: list_all_iff maxWrite_def)
  obtain r c' where e: "streamWriter_Write_loop wr w p 0 c = (r, c')"
    by (cases "streamWriter_Write_loop wr w p 0 c") auto
  with l pc show ?thesis
    by (simp add: streamWriter_Write_def emits_def)
qed

lemma Flush_emits:
  assumes "\<forall>s bs. snd (wr s bs) = None" and "b_err bw = None"
  shows "\<exists>c' qs. Flush wr w bw c = (None, bw\<lparr>b_buf := []\<rparr>, c')
                 \<and> emits wr c w qs c' \<and> concat qs = b_buf bw"
proof (cases "b_buf bw = []")
  case True
  then have "Flush wr w bw c = (None, bw\<lparr>b_buf := []\<rparr>, c)"
    using assms(2) by (simp add: Flush_def)
  then show ?thesis using True emits_Nil[of wr c w] by force
next
  case False
  obtain c' where s: "streamWriter_Write wr w (b_buf bw) c = ((length (b_buf bw), None), c')"
    and e: "emits wr c w (chop maxWrite (b_buf bw)) c'"
    using streamWriter_Write_emits[OF assms(1), of w "b_buf bw" c] by blast
  have "Flush wr w bw c = (None, bw\<lparr>b_buf := []\<rparr>, c')"
    using False assms(2) s by (simp add: Flush_def)
  moreover have "concat (chop maxWrite (b_buf bw)) = b_buf bw"
    by (rule concat_chop) (simp add: maxWrite_def)
  ultimately show ?thesis using e by blast
qed

text \<open>The invariant of the buffered writer: no error, at most \<open>maxWrite\<close> bytes buffered.\<close>

lemma bufio_Write_emits:
  assumes "\<forall>s bs. snd (wr s bs) = None" and "b_err bw = None"
    and "length (b_buf bw) \<le> maxWrite"
  shows "\<exists>bw' c' qs. bufio_Write wr w p nn bw c = ((nn + length p, None), bw', c')
            \<and> b_err bw' = None \<and> length (b_buf bw') \<le> maxWrite
            \<and> emits wr c w qs c' \<and> concat qs @ b_buf bw' = b_buf bw @ p"
  using assms
proof (induction wr w p nn bw c rule: bufio_Write.induct)
  case (1 wr w p nn bw c)
  note nf = "1.prems"(1) and ne = "1.prems"(2) and le = "1.prems"(3)
  show ?case
  proof (cases "length p > Available bw")
    case False
    then have "bufio_Write wr w p nn bw c = ((nn + length p, None), bw\<lparr>b_buf := b_buf bw @ p\<rparr>, c)"
      using ne by (subst bufio_Write.simps) simp
    moreover have "length (b_buf bw @ p) \<le> maxWrite"
      using False le by (simp add: Available_def)
    ultimately show ?thesis using ne emits_Nil[of wr c w] by force
  next
    case True
    show ?thesis
    proof (cases "length (b_buf bw) = 0")
      case empty: True
      obtain c1 where s: "streamWriter_Write wr w p c = ((length p, None), c1)"
        and e: "emits wr c w (chop maxWrite p) c1"
        using streamWriter_Write_emits[OF nf, of w p c] by blast
      have unf: "bufio_Write wr w p nn bw c
                   = bufio_Write wr w (drop (length p) p) (nn + length p) (bw\<lparr>b_err := None\<rparr>) c1"
        using True ne empty s by (subst bufio_Write.simps) simp
      have "bufio_Write wr w [] (nn + length p) (bw\<lparr>b_err := None\<rparr>) c1
              = ((nn + length p, None), bw, c1)"
        using ne empty by (subst bufio_Write.simps) (simp add: Available_def)
      then have "bufio_Write wr w p nn bw c = ((nn + length p, None), bw, c1)"
        using unf by simp
      moreover have "concat (chop maxWrite p) = p"
        by (rule concat_chop) (simp add: maxWrite_def)
      ultimately show ?thesis using ne le e empty by force
    next
      case nonempty: False
      let ?n = "min (Available bw) (length p)"
      let ?bw1 = "bw\<lparr>b_buf := b_buf bw @ take ?n p\<rparr>"
      have n: "?n = Available bw" using True by simp
      obtain c1 qs1 where f: "Flush wr w ?bw1 c = (None, ?bw1\<lparr>b_buf := []\<rparr>, c1)"
        and e1: "emits wr c w qs1 c1" and cq: "concat qs1 = b_buf ?bw1"
        using Flush_emits[OF nf, of ?bw1 w c] ne by auto
      have ih: "\<exists>bw' c' qs. bufio_Write wr w (drop ?n p) (nn + ?n) (?bw1\<lparr>b_buf := []\<rparr>) c1
                    = ((nn + ?n + length (drop ?n p), None), bw', c')
            \<and> b_err bw' = None \<and> length (b_buf bw') \<le> maxWrite
            \<and> emits wr c1 w qs c' \<and> concat qs @ b_buf bw' = b_buf (?bw1\<lparr>b_buf := []\<rparr>) @ drop ?n p"
        using "1.IH"(2)[OF _ nonempty f[symmetric] refl nf] True ne by simp
      then obtain bw' c' qs where
        r: "bufio_Write wr w (drop ?n p) (nn + ?n) (?bw1\<lparr>b_buf := []\<rparr>) c1
              = ((nn + ?n + length (drop ?n p), None), bw', c')"
        and i: "b_err bw' = None" "length (b_buf bw') \<le> maxWrite"
        and e2: "emits wr c1 w qs c'" and cq2: "concat qs @ b_buf bw' = drop ?n p"
        by auto
      have unf: "bufio_Write wr w p nn bw c
                   = bufio_Write wr w (drop ?n p) (nn + ?n) (?bw1\<lparr>b_buf := []\<rparr>) c1"
        using True ne nonempty f by (subst bufio_Write.simps) simp
      have l: "nn + ?n + length (drop ?n p) = nn + length p" using True by simp
      have cc: "concat (qs1 @ qs) @ b_buf bw' = b_buf bw @ p"
        proof -
        have "concat (qs1 @ qs) @ b_buf bw' = concat qs1 @ (concat qs @ b_buf bw')" by simp
        also have "\<dots> = (b_buf bw @ take ?n p) @ drop ?n p" by (simp only: cq cq2) simp
        also have "\<dots> = b_buf bw @ p" by simp
        finally show ?thesis .
      qed
      have res: "bufio_Write wr w p nn bw c = ((nn + length p, None), bw', c')"
        using unf r l by simp
      show ?thesis
        by (rule exI[of _ bw'], rule exI[of _ c'], rule exI[of _ "qs1 @ qs"])
           (simp only: res i cc emits_trans[OF e1 e2] simp_thms)
    qed
  qed
qed

lemma bufio_WriteString_emits:
  assumes "\<forall>s bs. snd (wr s bs) = None" and "b_err bw = None"
    and "length (b_buf bw) \<le> maxWrite"
  shows "\<exists>bw' c' qs. bufio_WriteString wr w p nn bw c = ((nn + length p, None), bw', c')
            \<and> b_err bw' = None \<and> length (b_buf bw') \<le> maxWrite
            \<and> emits wr c w qs c' \<and> concat qs @ b_buf bw' = b_buf bw @ p"
  using assms
proof (induction wr w p nn bw c rule: bufio_WriteString.induct)
  case (1 wr w p nn bw c)
  note nf = "1.prems"(1) and ne = "1.prems"(2) and le = "1.prems"(3)
  show ?case
  proof (cases "length p > Available bw")
    case False
    then have "bufio_WriteString wr w p nn bw c
                 = ((nn + length p, None), bw\<lparr>b_buf := b_buf bw @ p\<rparr>, c)"
      using ne by (subst bufio_WriteString.simps) simp
    moreover have "length (b_buf bw @ p) \<le> maxWrite"
      using False le by (simp add: Available_def)
    ultimately show ?thesis using ne emits_Nil[of wr c w] by force
  next
    case True
    let ?n = "min (Available bw) (length p)"
    let ?bw1 = "bw\<lparr>b_buf := b_buf bw @ take ?n p\<rparr>"
    obtain c1 qs1 where f: "Flush wr w ?bw1 c = (None, ?bw1\<lparr>b_buf := []\<rparr>, c1)"
      and e1: "emits wr c w qs1 c1" and cq: "concat qs1 = b_buf ?bw1"
      using Flush_emits[OF nf, of ?bw1 w c] ne by auto
    have ih: "\<exists>bw' c' qs. bufio_WriteString wr w (drop ?n p) (nn + ?n) (?bw1\<lparr>b_buf := []\<rparr>) c1
                  = ((nn + ?n + length (drop ?n p), None), bw', c')
          \<and> b_err bw' = None \<and> length (b_buf bw') \<le> maxWrite
          \<and> emits wr c1 w qs c' \<and> concat qs @ b_buf bw' = b_buf (?bw1\<lparr>b_buf := []\<rparr>) @ drop ?n p"
      using "1.IH"[OF _ f[symmetric] refl nf] True ne by simp
    then obtain bw' c' qs where
      r: "bufio_WriteString wr w (drop ?n p) (nn + ?n) (?bw1\<lparr>b_buf := []\<rparr>) c1
            = ((nn + ?n + length (drop ?n p), None), bw', c')"
      and i: "b_err bw' = None" "length (b_buf bw') \<le> maxWrite"
      and e2: "emits wr c1 w qs c'" and cq2: "concat qs @ b_buf bw' = drop ?n p"
      by auto
    have unf: "bufio_WriteString wr w p nn bw c
                 = bufio_WriteString wr w (drop ?n p) (nn + ?n) (?bw1\<lparr>b_buf := []\<rparr>) c1"
      using True ne f by (subst bufio_WriteString.simps) simp
    have l: "nn + ?n + length (drop ?n p) = nn + length p" using True by simp
    have cc: "concat (qs1 @ qs) @ b_buf bw' = b_buf bw @ p"
      proof -
        have "concat (qs1 @ qs) @ b_buf bw' = concat qs1 @ (concat qs @ b_buf bw')" by simp
        also have "\<dots> = (b_buf bw @ take ?n p) @ drop ?n p" by (simp only: cq cq2) simp
        also have "\<dots> = b_buf bw @ p" by simp
        finally show ?thesis .
      qed
    have res: "bufio_WriteString wr w p nn bw c = ((nn + length p, None), bw', c')"
      using unf r l by simp
    show ?thesis
      by (rule exI[of _ bw'], rule exI[of _ c'], rule exI[of _ "qs1 @ qs"])
         (simp only: res i cc emits_trans[OF e1 e2] simp_thms)
  qed
qed


section \<open>writePairs and writeRequest over a stream that does not fail\<close>

lemma list_all_pieces_65535:
  "list_all (\<lambda>q. q \<noteq> [] \<and> length q \<le> maxWrite) qs
     = list_all (\<lambda>q. q \<noteq> [] \<and> length q \<le> 65535) qs"
  by (simp add: maxWrite_def)

lemma bufWriter_Close_emits:
  assumes "\<forall>s bs. snd (wr s bs) = None" and "b_err (Writer w) = None"
  shows "\<exists>c' qs. bufWriter_Close wr w c = (None, c')
           \<and> rwc c' = after_writes wr (rwc c)
                 (map (frame (Reserved (h c)) (recType (closer w)) (reqID (closer w))) qs
                  @ [frame (Reserved (h c)) (recType (closer w)) (reqID (closer w)) []])
           \<and> Reserved (h c') = Reserved (h c)
           \<and> list_all (\<lambda>q. q \<noteq> [] \<and> length q \<le> maxWrite) qs
           \<and> concat qs = b_buf (Writer w)"
proof -
  obtain c1 qs where f: "Flush wr (closer w) (Writer w) c = (None, (Writer w)\<lparr>b_buf := []\<rparr>, c1)"
    and e: "emits wr c (closer w) qs c1" and cq: "concat qs = b_buf (Writer w)"
    using Flush_emits[OF assms, of "closer w" c] by blast
  let ?c' = "snd (streamWriter_Close wr (closer w) c1)"
  have cl: "bufWriter_Close wr w c = streamWriter_Close wr (closer w) c1"
    using f by (simp add: bufWriter_Close_def)
  have n: "fst (streamWriter_Close wr (closer w) c1) = None"
    unfolding streamWriter_Close_frame by (rule writeRecord_nofail(1)[OF assms(1)]) simp
  have r: "rwc ?c' = fst (wr (rwc c1) (frame (Reserved (h c1)) (recType (closer w)) (reqID (closer w)) []))"
    unfolding streamWriter_Close_frame by (rule writeRecord_nofail(2)[OF assms(1)]) simp
  have rs: "Reserved (h ?c') = Reserved (h c1)"
    unfolding streamWriter_Close_frame by (rule writeRecord_nofail(3)[OF assms(1)]) simp
  have 1: "bufWriter_Close wr w c = (None, ?c')"
    using cl n by (cases "streamWriter_Close wr (closer w) c1") simp
  have 2: "rwc ?c' = after_writes wr (rwc c)
                 (map (frame (Reserved (h c)) (recType (closer w)) (reqID (closer w))) qs
                  @ [frame (Reserved (h c)) (recType (closer w)) (reqID (closer w)) []])"
    using e r by (simp add: emits_def after_writes_append after_writes_Cons after_writes_Nil)
  have 3: "Reserved (h ?c') = Reserved (h c)" using rs e by (simp add: emits_def)
  have 4: "list_all (\<lambda>q. q \<noteq> [] \<and> length q \<le> maxWrite) qs" using e by (simp add: emits_def)
  show ?thesis
    by (rule exI[of _ ?c'], rule exI[of _ qs]) (simp only: 1 2 3 4 cq simp_thms)
qed

lemma length_sizeBytes: "length (sizeBytes s) = (if s > 127 then 4 else 1)"
  by (simp add: sizeBytes_def putUint32_def)

lemma encodeSize_sizeBytes:
  assumes "4 \<le> length b"
  shows "encodeSize b s = Inr (sizeBytes s @ drop (length (sizeBytes s)) b, length (sizeBytes s))"
proof (cases "s > 127")
  case True
  then have l: "length (sizeBytes s) = 4" by (simp add: length_sizeBytes)
  from True have sb: "sizeBytes s = putUint32 (s OR push_bit 31 1)"
    by (simp add: sizeBytes_def)
  have "encodeSize b s = Inr (putUint32 (s OR push_bit 31 1) @ drop 4 b, 4)"
    using True assms by (simp add: encodeSize_def)
  then show ?thesis by (simp only: l) (simp only: sb)
next
  case False
  then show ?thesis using assms
    by (cases b) (simp_all add: encodeSize_def sizeBytes_def)
qed

lemma pair_lengths_written:
  assumes "length b = 8"
  shows "\<exists>b1 n b2 m. encodeSize b s1 = Inr (b1, n)
           \<and> encodeSize (drop n b1) s2 = Inr (b2, m)
           \<and> take (n + m) (take n b1 @ b2) = sizeBytes s1 @ sizeBytes s2
           \<and> length (take n b1 @ b2) = 8"
proof -
  let ?n = "length (sizeBytes s1)" and ?m = "length (sizeBytes s2)"
  let ?b1 = "sizeBytes s1 @ drop ?n b"
  have n4: "?n \<le> 4" and m4: "?m \<le> 4" by (simp_all add: length_sizeBytes)
  have e1: "encodeSize b s1 = Inr (?b1, ?n)"
    using assms by (intro encodeSize_sizeBytes) simp
  have d: "drop ?n ?b1 = drop ?n b" by simp
  let ?b2 = "sizeBytes s2 @ drop ?m (drop ?n b)"
  have e2: "encodeSize (drop ?n ?b1) s2 = Inr (?b2, ?m)"
    unfolding d using assms n4 by (intro encodeSize_sizeBytes) simp
  have t: "take ?n ?b1 = sizeBytes s1" by simp
  have 3: "take (?n + ?m) (take ?n ?b1 @ ?b2) = sizeBytes s1 @ sizeBytes s2"
    unfolding t by simp
  have 4: "length (take ?n ?b1 @ ?b2) = 8"
    unfolding t using assms n4 m4 by simp
  show ?thesis
    by (rule exI[of _ ?b1], rule exI[of _ ?n], rule exI[of _ ?b2], rule exI[of _ ?m])
       (simp only: e1 e2 3 4 simp_thms)
qed

lemma writePairs_loop_emits:
  assumes "\<forall>s bs. snd (wr s bs) = None" and "b_err (Writer w) = None"
    and "length (b_buf (Writer w)) \<le> maxWrite" and "length b = 8"
  shows "\<exists>w' c' qs. writePairs_loop wr w b ps c = (None, w', c')
           \<and> closer w' = closer w \<and> b_err (Writer w') = None
           \<and> length (b_buf (Writer w')) \<le> maxWrite
           \<and> emits wr c (closer w) qs c'
           \<and> concat qs @ b_buf (Writer w') = b_buf (Writer w) @ concat (map pairBytes ps)"
  using assms
proof (induction ps arbitrary: w b c)
  case Nil
  show ?case
    by (rule exI[of _ w], rule exI[of _ c], rule exI[of _ "[]"])
       (simp add: Nil.prems emits_Nil)
next
  case (Cons kv ps)
  obtain k v where kv: "kv = (k, v)" by (cases kv) auto
  note nf = Cons.prems(1)
  obtain b1 n b2 m where e1: "encodeSize b (of_nat (length k)) = Inr (b1, n)"
    and e2: "encodeSize (drop n b1) (of_nat (length v)) = Inr (b2, m)"
    and hd: "take (n + m) (take n b1 @ b2) = sizeBytes (of_nat (length k)) @ sizeBytes (of_nat (length v))"
    and l8: "length (take n b1 @ b2) = 8"
    using pair_lengths_written[OF Cons.prems(4), of "of_nat (length k)" "of_nat (length v)"]
    by blast
  let ?sw = "closer w"
  obtain bw1 c1 qs1 x1 where
    w1: "bufio_Write wr ?sw (take (n + m) (take n b1 @ b2)) 0 (Writer w) c = ((x1, None), bw1, c1)"
    and i1: "b_err bw1 = None" "length (b_buf bw1) \<le> maxWrite"
    and em1: "emits wr c ?sw qs1 c1"
    and c1: "concat qs1 @ b_buf bw1 = b_buf (Writer w) @ take (n + m) (take n b1 @ b2)"
    using bufio_Write_emits[OF nf Cons.prems(2,3), of ?sw "take (n + m) (take n b1 @ b2)" 0 c]
    by blast
  obtain bw2 c2 qs2 x2 where
    w2: "bufio_WriteString wr ?sw (bytes_of k) 0 bw1 c1 = ((x2, None), bw2, c2)"
    and i2: "b_err bw2 = None" "length (b_buf bw2) \<le> maxWrite"
    and em2: "emits wr c1 ?sw qs2 c2"
    and c2: "concat qs2 @ b_buf bw2 = b_buf bw1 @ bytes_of k"
    using bufio_WriteString_emits[OF nf i1, of ?sw "bytes_of k" 0 c1] by blast
  obtain bw3 c3 qs3 x3 where
    w3: "bufio_WriteString wr ?sw (bytes_of v) 0 bw2 c2 = ((x3, None), bw3, c3)"
    and i3: "b_err bw3 = None" "length (b_buf bw3) \<le> maxWrite"
    and em3: "emits wr c2 ?sw qs3 c3"
    and c3: "concat qs3 @ b_buf bw3 = b_buf bw2 @ bytes_of v"
    using bufio_WriteString_emits[OF nf i2, of ?sw "bytes_of v" 0 c2] by blast
  let ?w3 = "w\<lparr>Writer := bw3\<rparr>"
  have unf: "writePairs_loop wr w b (kv # ps) c = writePairs_loop wr ?w3 (take n b1 @ b2) ps c3"
    by (simp only: kv writePairs_loop.simps e1 e2 sum.case prod.case w1 w2 w3 option.case)
  obtain w' c' qs where
    r: "writePairs_loop wr ?w3 (take n b1 @ b2) ps c3 = (None, w', c')"
    and cw: "closer w' = closer ?w3" and i4: "b_err (Writer w') = None"
      "length (b_buf (Writer w')) \<le> maxWrite"
    and em4: "emits wr c3 (closer ?w3) qs c'"
    and c4: "concat qs @ b_buf (Writer w') = b_buf (Writer ?w3) @ concat (map pairBytes ps)"
    using Cons.IH[OF nf, of ?w3 "take n b1 @ b2" c3] i3 l8 by auto
  have em: "emits wr c ?sw (qs1 @ qs2 @ qs3 @ qs) c'"
    using emits_trans[OF em1 emits_trans[OF em2 emits_trans[OF em3 _]]] em4 by simp
  have cc: "concat (qs1 @ qs2 @ qs3 @ qs) @ b_buf (Writer w')
              = b_buf (Writer w) @ concat (map pairBytes (kv # ps))"
  proof -
    have "concat (qs1 @ qs2 @ qs3 @ qs) @ b_buf (Writer w')
            = concat qs1 @ concat qs2 @ concat qs3 @ (concat qs @ b_buf (Writer w'))" by simp
    also have "\<dots> = concat qs1 @ concat qs2 @ (concat qs3 @ b_buf bw3) @ concat (map pairBytes ps)"
      by (simp only: c4) simp
    also have "\<dots> = concat qs1 @ (concat qs2 @ b_buf bw2) @ bytes_of v @ concat (map pairBytes ps)"
      by (simp only: c3) simp
    also have "\<dots> = (concat qs1 @ b_buf bw1) @ bytes_of k @ bytes_of v @ concat (map pairBytes ps)"
      by (simp only: c2) simp
    also have "\<dots> = b_buf (Writer w) @ pairBytes kv @ concat (map pairBytes ps)"
      by (simp only: c1 hd) (simp add: pairBytes_def kv)
    also have "\<dots> = b_buf (Writer w) @ concat (map pairBytes (kv # ps))" by simp
    finally show ?thesis .
  qed
  have cw': "closer w' = closer w" using cw by simp
  show ?case
    by (rule exI[of _ w'], rule exI[of _ c'], rule exI[of _ "qs1 @ qs2 @ qs3 @ qs"])
       (simp only: unf r cw' i4 em cc simp_thms)
qed

lemma writePairs_emits:
  assumes "\<forall>s bs. snd (wr s bs) = None"
  shows "\<exists>c' qs. writePairs wr rt rid ps c = (None, c')
           \<and> rwc c' = after_writes wr (rwc c)
                 (map (frame (Reserved (h c)) rt rid) qs @ [frame (Reserved (h c)) rt rid []])
           \<and> Reserved (h c') = Reserved (h c)
           \<and> list_all (\<lambda>q. q \<noteq> [] \<and> length q \<le> maxWrite) qs
           \<and> concat qs = concat (map pairBytes ps)"
proof -
  let ?w = "newWriter rt rid"
  have w0: "b_err (Writer ?w) = None" "length (b_buf (Writer ?w)) \<le> maxWrite"
    "closer ?w = \<lparr>recType = rt, reqID = rid\<rparr>" "b_buf (Writer ?w) = []"
    by (simp_all add: newWriter_def NewWriterSize_def)
  obtain w' c1 qs1 where
    r: "writePairs_loop wr ?w (replicate 8 0) ps c = (None, w', c1)"
    and cw: "closer w' = closer ?w" and i: "b_err (Writer w') = None"
    and em: "emits wr c (closer ?w) qs1 c1"
    and cc: "concat qs1 @ b_buf (Writer w') = b_buf (Writer ?w) @ concat (map pairBytes ps)"
    using writePairs_loop_emits[OF assms w0(1,2), of "replicate 8 0" ps c] by auto
  obtain c' qs2 where
    cl: "bufWriter_Close wr w' c1 = (None, c')"
    and rw: "rwc c' = after_writes wr (rwc c1)
                 (map (frame (Reserved (h c1)) (recType (closer w')) (reqID (closer w'))) qs2
                  @ [frame (Reserved (h c1)) (recType (closer w')) (reqID (closer w')) []])"
    and rs: "Reserved (h c') = Reserved (h c1)"
    and la: "list_all (\<lambda>q. q \<noteq> [] \<and> length q \<le> maxWrite) qs2"
    and c2: "concat qs2 = b_buf (Writer w')"
    using bufWriter_Close_emits[OF assms i, of c1] by blast
  have 1: "writePairs wr rt rid ps c = (None, c')"
    by (simp add: writePairs_def r cl)
  have 2: "rwc c' = after_writes wr (rwc c)
                 (map (frame (Reserved (h c)) rt rid) (qs1 @ qs2) @ [frame (Reserved (h c)) rt rid []])"
    using em rw by (simp add: emits_def cw w0(3) after_writes_append)
  have 3: "Reserved (h c') = Reserved (h c)" using rs em by (simp add: emits_def)
  have 4: "list_all (\<lambda>q. q \<noteq> [] \<and> length q \<le> maxWrite) (qs1 @ qs2)"
    using em la by (simp add: emits_def)
  have 5: "concat (qs1 @ qs2) = concat (map pairBytes ps)"
    using cc c2 by (simp add: w0(4))
  show ?thesis
    by (rule exI[of _ c'], rule exI[of _ "qs1 @ qs2"]) (simp only: 1 2 3 4 5 simp_thms)
qed





section \<open>Reading the pairs back\<close>

lemma wire_contents_frames:
  assumes "list_all (\<lambda>q. q \<noteq> [] \<and> length q \<le> maxWrite) qs"
  shows "wire_contents (map (frame rsv rt rid) qs @ [frame rsv rt rid []]) = concat qs"
proof -
  have one: "length q \<le> 65535 \<Longrightarrow>
      (case read (frame rsv rt rid q) of Inl e \<Rightarrow> [] | Inr (rc, r) \<Rightarrow> content rc) = q" for q
    using read_frame[of q rsv rt rid "[]"] by (simp add: content_def unat_of_nat_u16)
  have "concat (map (\<lambda>bs. case read bs of Inl e \<Rightarrow> [] | Inr (rc, r) \<Rightarrow> content rc)
                 (map (frame rsv rt rid) qs)) = concat qs"
    using assms by (induction qs) (simp_all add: one maxWrite_def)
  moreover have "(case read (frame rsv rt rid []) of Inl e \<Rightarrow> [] | Inr (rc, r) \<Rightarrow> content rc) = []"
    using one[of "[]"] by simp
  ultimately show ?thesis by (simp add: wire_contents_def)
qed

lemma string_of_bytes_of: "string_of (bytes_of s) = s"
proof -
  have "char_of (unat (of_nat (of_char ch) :: byte)) = ch" for ch :: char
  proof -
    have "(of_char ch :: nat) < 256" by simp
    then have "unat (of_nat (of_char ch) :: byte) = of_char ch" by (simp add: unat_of_nat)
    then show ?thesis by simp
  qed
  then show ?thesis by (simp add: string_of_def bytes_of_def comp_def)
qed

lemma length_bytes_of: "length (bytes_of s) = length s"
  by (simp add: bytes_of_def)

lemma sizeBytes_nonempty: "sizeBytes s \<noteq> []"
  by (simp add: sizeBytes_def putUint32_def)

lemma readSize_sizeBytes:
  assumes "s < 2 ^ 31"
  shows "readSize (sizeBytes s @ rest) = (s, length (sizeBytes s))"
proof (cases "s > 127")
  case True
  then have sb: "sizeBytes s = putUint32 (s OR push_bit 31 1)" by (simp add: sizeBytes_def)
  have l: "length (putUint32 (s OR push_bit 31 1)) = 4" by (simp add: putUint32_def)
  show ?thesis unfolding sb l by (rule readSize_big[OF assms])
next
  case False
  then have le: "s \<le> 127" by simp
  from False have sb: "sizeBytes s = [ucast s]" by (simp add: sizeBytes_def)
  show ?thesis unfolding sb using readSize_small[OF le, of rest] by simp
qed

lemma unat_of_nat_u32: "n < 4294967296 \<Longrightarrow> unat (of_nat n :: u32) = n"
  by (simp add: unat_of_nat)

lemma of_nat_lt_2p31: "n < 2147483648 \<Longrightarrow> (of_nat n :: u32) < 2 ^ 31"
  by (simp add: word_less_nat_alt unat_of_nat)

lemma readString_prefix:
  assumes "length k \<le> length (bytes_of k @ rest)" and "length (bytes_of k @ rest) < 4294967296"
  shows "readString (bytes_of k @ rest) (of_nat (length k)) = k"
proof -
  have lk: "length k < 4294967296" using assms by simp
  have K: "unat (of_nat (length k) :: u32) = length k"
    using lk by (rule unat_of_nat_u32)
  have L: "unat (of_nat (length (bytes_of k @ rest)) :: u32) = length (bytes_of k @ rest)"
    using assms(2) by (rule unat_of_nat_u32)
  have "\<not> (of_nat (length k) :: u32) > of_nat (length (bytes_of k @ rest))"
    unfolding word_less_nat_alt K L using assms(1) by simp
  then have "readString (bytes_of k @ rest) (of_nat (length k))
               = string_of (take (unat (of_nat (length k) :: u32)) (bytes_of k @ rest))"
    unfolding readString_def by (simp only: if_False)
  also have "\<dots> = string_of (bytes_of k)"
    unfolding K by (simp add: length_bytes_of)
  finally show ?thesis by (simp add: string_of_bytes_of)
qed

lemma decodePairs_pairBytes:
  assumes "length k < 2147483648" and "length v < 2147483648"
    and "length (pairBytes (k, v) @ rest) < 4294967296"
  shows "decodePairs (pairBytes (k, v) @ rest) = map_option ((#) (k, v)) (decodePairs rest)"
proof -
  let ?sk = "of_nat (length k) :: u32" and ?sv = "of_nat (length v) :: u32"
  let ?n = "length (sizeBytes ?sk)" and ?m = "length (sizeBytes ?sv)"
  let ?T = "bytes_of k @ bytes_of v @ rest"
  let ?bs = "pairBytes (k, v) @ rest"
  have bs: "?bs = sizeBytes ?sk @ sizeBytes ?sv @ ?T" by (simp add: pairBytes_def)
  have ne: "?bs \<noteq> []" using sizeBytes_nonempty[of ?sk] by (simp add: bs)
  have r1: "readSize ?bs = (?sk, ?n)"
    unfolding bs by (rule readSize_sizeBytes[OF of_nat_lt_2p31[OF assms(1)]])
  have d1: "drop ?n ?bs = sizeBytes ?sv @ ?T" unfolding bs by simp
  have r2: "readSize (drop ?n ?bs) = (?sv, ?m)"
    unfolding d1 by (rule readSize_sizeBytes[OF of_nat_lt_2p31[OF assms(2)]])
  have d2: "drop ?m (drop ?n ?bs) = ?T" unfolding d1 by simp
  have n0: "?n \<noteq> 0" and m0: "?m \<noteq> 0" using sizeBytes_nonempty by simp_all
  have uk: "unat ?sk = length k" using assms(1) by (simp add: unat_of_nat_u32)
  have uv: "unat ?sv = length v" using assms(2) by (simp add: unat_of_nat_u32)
  have lT: "length ?T < 4294967296" using assms(3) by (simp add: bs)
  have fit: "\<not> unat ?sk + unat ?sv > length ?T" by (simp add: uk uv length_bytes_of)
  have k: "readString ?T ?sk = k"
    using readString_prefix[of k "bytes_of v @ rest"] lT by (simp add: length_bytes_of)
  have d3: "drop (unat ?sk) ?T = bytes_of v @ rest" by (simp add: uk length_bytes_of)
  have v: "readString (bytes_of v @ rest) ?sv = v"
    using readString_prefix[of v rest] lT by (simp add: length_bytes_of)
  have d4: "drop (unat ?sv) (bytes_of v @ rest) = rest" by (simp add: uv length_bytes_of)
  show ?thesis
    by (subst decodePairs.simps)
       (simp only: ne r1 r2 d2 n0 m0 fit k d3 v d4 if_False prod.case)
qed

lemma decodePairs_concat:
  assumes "list_all (\<lambda>kv. length (fst kv) < 2147483648 \<and> length (snd kv) < 2147483648) ps"
    and "length (concat (map pairBytes ps)) < 4294967296"
  shows "decodePairs (concat (map pairBytes ps)) = Some ps"
  using assms
proof (induction ps)
  case Nil
  show ?case by (subst decodePairs.simps) simp
next
  case (Cons kv ps)
  obtain k v where kv: "kv = (k, v)" by (cases kv) auto
  have l: "length (pairBytes (k, v) @ concat (map pairBytes ps)) < 4294967296"
    using Cons.prems(2) by (simp add: kv)
  have ih: "decodePairs (concat (map pairBytes ps)) = Some ps"
    using Cons.IH Cons.prems by simp
  have "decodePairs (pairBytes (k, v) @ concat (map pairBytes ps))
          = map_option ((#) (k, v)) (decodePairs (concat (map pairBytes ps)))"
    using Cons.prems(1) l by (intro decodePairs_pairBytes) (simp_all add: kv)
  then show ?case by (simp add: kv ih)
qed

text \<open>A name of exactly \<open>2^31\<close> bytes: its length is written as \<open>80 00 00 00\<close> and read
  back as 0.\<close>

lemma readSize_2p31: "readSize (sizeBytes (of_nat 2147483648) @ rest) = (0, 4)"
proof -
  have w: "(of_nat 2147483648 :: u32) = push_bit 31 1" by simp
  have sb: "sizeBytes (push_bit 31 1) = putUint32 (push_bit 31 1 OR push_bit 31 1)"
    by (simp add: sizeBytes_def)
  have z: "(push_bit 31 1 OR push_bit 31 1) AND NOT (push_bit 31 1) = (0 :: u32)"
    by (rule bit_word_eqI) (auto simp add: bit_simps simp del: push_bit_of_1)
  show ?thesis
    unfolding w sb
    using readSize_long_form[OF hi_byte_and_128, of "push_bit 31 1" rest]
    by (simp only: z)
qed

lemma decodePairs_long_name:
  assumes "length k = 2147483648"
  shows "decodePairs (pairBytes (k, []) @ rest)
           = map_option ((#) ([], [])) (decodePairs (bytes_of k @ rest))"
proof -
  let ?T = "bytes_of k @ rest"
  let ?bs = "pairBytes (k, []) @ rest"
  have s0: "sizeBytes 0 = [0]" by (simp add: sizeBytes_def)
  have l4: "length (sizeBytes (of_nat 2147483648)) = 4" by (simp add: length_sizeBytes)
  have bs: "?bs = sizeBytes (of_nat 2147483648) @ [0] @ ?T"
    by (simp add: pairBytes_def assms s0 bytes_of_def)
  have ne: "?bs \<noteq> []" by (simp add: bs sizeBytes_nonempty)
  have r1: "readSize ?bs = (0, 4)" unfolding bs by (rule readSize_2p31)
  have d1: "drop 4 ?bs = [0] @ ?T" unfolding bs using l4 by simp
  have r2: "readSize (drop 4 ?bs) = (0, 1)"
    unfolding d1 using readSize_small[of 0 ?T] by simp
  have d2: "drop 1 (drop 4 ?bs) = ?T" unfolding d1 by simp
  have rs: "readString xs 0 = []" for xs by (simp add: readString_def string_of_def)
  have n0: "(4::nat) \<noteq> 0" and m0: "(1::nat) \<noteq> 0" by simp_all
  have fit: "\<not> unat (0::u32) + unat (0::u32) > length ?T" by simp
  have d3: "drop (unat (0::u32)) ?T = ?T" by simp
  show ?thesis
    by (subst decodePairs.simps)
       (simp only: ne r1 r2 d2 n0 m0 fit rs d3 if_False prod.case)
qed


section \<open>The header loop on a well-formed block\<close>

lemma ReadLine_line:
  assumes "LF \<notin> set l" and "length l < 1024"
  shows "ReadLine 1024 (l @ LF # rest) = ((chomp l, False, None), rest)"
proof -
  have tw: "takeWhile (\<lambda>ch. ch \<noteq> LF) (l @ LF # rest) = l"
    using assms(1) by (induction l) auto
  have "LF \<in> set (take 1024 (l @ LF # rest))"
  proof -
    obtain m where m: "1024 - length l = Suc m"
      using assms(2) by (cases "1024 - length l") auto
    have "take 1024 (l @ LF # rest) = l @ LF # take m rest"
      using assms(2) by (simp add: m)
    then show ?thesis by simp
  qed
  then show ?thesis
    by (simp add: ReadLine_def Let_def tw chomp_def)
qed

lemma ReadLine_blank:
  assumes "blank = [LF] \<or> blank = [CR, LF]"
  shows "ReadLine 1024 (blank @ body) = (([], False, None), body)"
proof -
  have "ReadLine 1024 ([] @ LF # body) = ((chomp [], False, None), body)"
    by (rule ReadLine_line) simp_all
  moreover have "ReadLine 1024 ([CR] @ LF # body) = ((chomp [CR], False, None), body)"
    by (rule ReadLine_line) (simp_all add: LF_def CR_def)
  ultimately show ?thesis using assms by (auto simp: chomp_def)
qed

lemma headerLoop_line:
  assumes "wellFormedLine l"
  shows "headerLoop w (l @ LF # rest) hs sc n
           = headerLoop w rest (fst (headerStep (hs, sc) l)) (snd (headerStep (hs, sc) l)) (n + 1)"
proof -
  from assms have a: "LF \<notin> set l" "length l < 1024" "chomp l \<noteq> []" "CHR '':'' \<in> set (chomp l)"
    by (simp_all add: wellFormedLine_def)
  have rl: "ReadLine 1024 (l @ LF # rest) = ((chomp l, False, None), rest)"
    by (rule ReadLine_line[OF a(1,2)])
  have sp: "SplitN2 (chomp l)
              = [takeWhile (\<lambda>ch. ch \<noteq> CHR '':'') (chomp l),
                 tl (dropWhile (\<lambda>ch. ch \<noteq> CHR '':'') (chomp l))]"
    using a(4) by (simp add: SplitN2_def)
  show ?thesis
  proof (cases "fst (parseLine l) = ''Status''")
    case True
    with assms obtain code where c: "Atoi (take 3 (snd (parseLine l))) = Some code"
      and l3: "\<not> length (snd (parseLine l)) < 3"
      by (auto simp: wellFormedLine_def)
    show ?thesis
      using True c l3 a(3)
      by (subst headerLoop.simps) (simp add: rl sp parseLine_def headerStep_def Let_def)
  next
    case False
    then show ?thesis
      using a(3)
      by (subst headerLoop.simps) (simp add: rl sp parseLine_def headerStep_def Let_def)
  qed
qed

lemma headerLoop_block:
  assumes "\<forall>l \<in> set ls. wellFormedLine l" and "blank = [LF] \<or> blank = [CR, LF]"
  shows "headerLoop w (concat (map (\<lambda>l. l @ [LF]) ls) @ blank @ body) hs sc n
           = Inr (fst (foldl headerStep (hs, sc) ls), snd (foldl headerStep (hs, sc) ls),
                  n + length ls, True, body)"
  using assms(1)
proof (induction ls arbitrary: hs sc n)
  case Nil
  show ?case
    by (subst headerLoop.simps) (simp add: ReadLine_blank[OF assms(2)])
next
  case (Cons l ls)
  have wl: "wellFormedLine l" and wls: "\<forall>l \<in> set ls. wellFormedLine l"
    using Cons.prems by simp_all
  have s: "concat (map (\<lambda>l. l @ [LF]) (l # ls)) @ blank @ body
             = l @ LF # (concat (map (\<lambda>l. l @ [LF]) ls) @ blank @ body)"
    by simp
  show ?case
    unfolding s headerLoop_line[OF wl]
    by (simp add: Cons.IH[OF wls])
qed

lemma headerLoop_prefix:
  assumes "\<forall>l \<in> set ls. wellFormedLine l"
  shows "headerLoop w (concat (map (\<lambda>l. l @ [LF]) ls) @ rest) hs sc n
           = headerLoop w rest (fst (foldl headerStep (hs, sc) ls))
               (snd (foldl headerStep (hs, sc) ls)) (n + length ls)"
  using assms
proof (induction ls arbitrary: hs sc n)
  case Nil
  show ?case by simp
next
  case (Cons l ls)
  have wl: "wellFormedLine l" and wls: "\<forall>l \<in> set ls. wellFormedLine l"
    using Cons.prems by simp_all
  have s: "concat (map (\<lambda>l. l @ [LF]) (l # ls)) @ rest
             = l @ LF # (concat (map (\<lambda>l. l @ [LF]) ls) @ rest)"
    by simp
  show ?case
    unfolding s headerLoop_line[OF wl]
    by (simp add: Cons.IH[OF wls])
qed

lemma headerLoop_bogus_status:
  assumes "bogusStatusLine l"
  shows "headerLoop w (l @ LF # rest) hs sc n
           = Inl (Errorf (if length (snd (parseLine l)) < 3 then ''bogus status (short): ''
                          else ''bogus status: ''), w)"
proof -
  from assms have a: "LF \<notin> set l" "length l < 1024" "chomp l \<noteq> []" "CHR '':'' \<in> set (chomp l)"
    and st: "fst (parseLine l) = ''Status''"
    and bad: "length (snd (parseLine l)) < 3 \<or> Atoi (take 3 (snd (parseLine l))) = None"
    by (simp_all add: bogusStatusLine_def)
  have rl: "ReadLine 1024 (l @ LF # rest) = ((chomp l, False, None), rest)"
    by (rule ReadLine_line[OF a(1,2)])
  have sp: "SplitN2 (chomp l)
              = [takeWhile (\<lambda>ch. ch \<noteq> CHR '':'') (chomp l),
                 tl (dropWhile (\<lambda>ch. ch \<noteq> CHR '':'') (chomp l))]"
    using a(4) by (simp add: SplitN2_def)
  show ?thesis
  proof (cases "length (snd (parseLine l)) < 3")
    case True
    then show ?thesis
      using st a(3)
      by (subst headerLoop.simps) (simp add: rl sp parseLine_def Let_def)
  next
    case False
    with bad have "Atoi (take 3 (snd (parseLine l))) = None" by simp
    then show ?thesis
      using False st a(3)
      by (subst headerLoop.simps) (simp add: rl sp parseLine_def Let_def)
  qed
qed

lemma writeResponse_bogus_status:
  assumes "\<forall>l \<in> set ls. wellFormedLine l" and "bogusStatusLine bad"
  shows "writeResponse w (concat (map (\<lambda>l. l @ [LF]) ls) @ bad @ LF # rest)
           = (Some (Errorf (if length (snd (parseLine bad)) < 3 then ''bogus status (short): ''
                            else ''bogus status: '')), w)"
  unfolding writeResponse_def headerLoop_prefix[OF assms(1)] headerLoop_bogus_status[OF assms(2)]
  by simp

lemma foldl_headerStep:
  "foldl headerStep (hs, sc) ls
     = (otherHeaders hs (map parseLine ls),
        (if statusCodes (map parseLine ls) = [] then sc
         else last (statusCodes (map parseLine ls))))"
proof (induction ls arbitrary: hs sc)
  case Nil
  show ?case by (simp add: otherHeaders_def statusCodes_def)
next
  case (Cons l ls)
  have f: "foldl headerStep (hs, sc) (l # ls) = foldl headerStep (headerStep (hs, sc) l) ls"
    by simp
  show ?case
  proof (cases "fst (parseLine l) = ''Status''")
    case True
    then have h: "headerStep (hs, sc) l = (hs, the (Atoi (take 3 (snd (parseLine l)))))"
      by (simp add: headerStep_def)
    show ?thesis
      unfolding f h Cons.IH using True
      by (simp add: otherHeaders_def statusCodes_def)
  next
    case False
    then have h: "headerStep (hs, sc) l
                    = (Header_Add (fst (parseLine l)) (snd (parseLine l)) hs, sc)"
      by (simp add: headerStep_def)
    show ?thesis
      unfolding f h Cons.IH using False
      by (simp add: otherHeaders_def statusCodes_def)
  qed
qed

lemma writeResponse_block:
  assumes "ls \<noteq> []" and "\<forall>l \<in> set ls. wellFormedLine l"
    and "blank = [LF] \<or> blank = [CR, LF]"
  shows "writeResponse w (concat (map (\<lambda>l. l @ [LF]) ls) @ blank @ body)
           = (case selectStatus (map parseLine ls) of
                None \<Rightarrow> (Some (Errorf ''missing required Content-Type in headers''),
                          WriteHeader 500 w)
              | Some code \<Rightarrow>
                  (case io_Copy
                          (WriteHeader code
                             (w\<lparr>rw_header :=
                                  foldl (\<lambda>hd0 (k, vv). foldl (\<lambda>hd1 v. Header_Add k v hd1) hd0 vv)
                                    (rw_header w) (otherHeaders [] (map parseLine ls))\<rparr>)) body of
                     (Some e, w3) \<Rightarrow> (Some (Errorf ''copy error: ''), w3)
                   | (None, w3) \<Rightarrow> (None, w3)))"
proof -
  have n: "0 + length ls \<noteq> 0" using assms(1) by simp
  show ?thesis
    unfolding writeResponse_def headerLoop_block[OF assms(2,3)] foldl_headerStep
    using n
    by (simp add: selectStatus_def Let_def StatusFound_def StatusOK_def
        StatusInternalServerError_def)
qed


section \<open>writeResponse on the pipe and on the finished stream\<close>

text \<open>When the writer end is closed after the writes and fewer than 100 of them are
  empty, \<open>writeResponse\<close> on the pipe returns what \<open>writeResponse\<close> returns on the bytes of
  all the writes, however they are cut into writes.\<close>

lemma emptyWrites_simps [simp]:
  "emptyWrites [] = 0"
  "emptyWrites (c # cs) = (if c = [] then Suc (emptyWrites cs) else emptyWrites cs)"
  by (simp_all add: emptyWrites_def)

lemma fill_closes:
  assumes "emptyWrites cs + empties < 100" and "length b < 1024"
  shows "\<exists>b' cs' er. fill empties b cs True = Some (b', cs', er)
           \<and> b' @ concat cs' = b @ concat cs
           \<and> emptyWrites cs' \<le> emptyWrites cs
           \<and> length b' \<le> 1024
           \<and> (er = None \<and> length b < length b'
                \<or> er = Some EOF \<and> b' = b \<and> cs' = [] \<and> concat cs = [])"
  using assms
proof (induction cs arbitrary: empties)
  case Nil
  then show ?case by simp
next
  case (Cons c cs)
  show ?case
  proof (cases "c = []")
    case True
    with Cons.prems have e: "emptyWrites cs + Suc empties < 100" by simp
    then have n: "\<not> 100 \<le> Suc empties" by simp
    from Cons.IH[OF e Cons.prems(2)] obtain b' cs' er where
      f: "fill (Suc empties) b cs True = Some (b', cs', er)"
      and r: "b' @ concat cs' = b @ concat cs" "emptyWrites cs' \<le> emptyWrites cs"
        "length b' \<le> 1024"
        "er = None \<and> length b < length b'
           \<or> er = Some EOF \<and> b' = b \<and> cs' = [] \<and> concat cs = []"
      by blast
    have "fill empties b (c # cs) True = Some (b', cs', er)"
      using True n f by simp
    then show ?thesis using r True by auto
  next
    case False
    define n where "n = min (1024 - length b) (length c)"
    have n0: "0 < n" "n \<le> length c" "length b + n \<le> 1024"
      using False Cons.prems(2) by (auto simp: n_def)
    have f: "fill empties b (c # cs) True
               = Some (b @ take n c, (if n < length c then drop n c # cs else cs), None)"
      using False by (simp add: Let_def n_def)
    have c: "take n c @ concat (if n < length c then drop n c # cs else cs) = c @ concat cs"
      using n0 by auto
    have e: "emptyWrites (if n < length c then drop n c # cs else cs) \<le> emptyWrites (c # cs)"
      using False by auto
    show ?thesis
      unfolding f using c e n0 by auto
  qed
qed

lemma takeWhile_less:
  "x \<in> set xs \<Longrightarrow> \<not> P x \<Longrightarrow> length (takeWhile P xs) < length xs"
  by (induction xs) auto

lemma ReadLine_buffered_line:
  assumes "LF \<in> set b" and "length b \<le> 1024"
  shows "ReadLine 1024 (b @ r)
           = (((if takeWhile (\<lambda>ch. ch \<noteq> LF) b \<noteq> [] \<and> last (takeWhile (\<lambda>ch. ch \<noteq> LF) b) = CR
                then butlast (takeWhile (\<lambda>ch. ch \<noteq> LF) b) else takeWhile (\<lambda>ch. ch \<noteq> LF) b),
               False, None),
              drop (length (takeWhile (\<lambda>ch. ch \<noteq> LF) b) + 1) b @ r)"
proof -
  have ne: "b @ r \<noteq> []" using assms(1) by auto
  have t: "take 1024 (b @ r) = b @ take (1024 - length b) r" using assms(2) by simp
  have i: "LF \<in> set (take 1024 (b @ r))" unfolding t using assms(1) by simp
  have tw: "takeWhile (\<lambda>ch. ch \<noteq> LF) (b @ r) = takeWhile (\<lambda>ch. ch \<noteq> LF) b"
    using assms(1) by (simp add: takeWhile_append1)
  have "length (takeWhile (\<lambda>ch. ch \<noteq> LF) b) < length b"
    using assms(1) by (simp add: takeWhile_less)
  then have d: "drop (Suc (length (takeWhile (\<lambda>ch. ch \<noteq> LF) b))) (b @ r)
                  = drop (Suc (length (takeWhile (\<lambda>ch. ch \<noteq> LF) b))) b @ r"
    by simp
  show ?thesis
    using ne i by (simp add: ReadLine_def Let_def tw d del: take_append drop_append)
qed

lemma ReadLine_buffer_full:
  assumes "LF \<notin> set b" and "length b = 1024"
  shows "ReadLine 1024 (b @ r)
           = (if last b = CR then ((butlast b, True, None), [CR] @ r)
              else ((b, True, None), r))"
proof -
  have ne: "b \<noteq> []" using assms(2) by auto
  have t: "take 1024 (b @ r) = b" using assms(2) by simp
  have d: "drop 1024 (b @ r) = r" using assms(2) by simp
  have "drop 1023 b = [last b]"
  proof -
    have "b = butlast b @ [last b]" using ne by simp
    moreover have "length (butlast b) = 1023" using assms(2) by simp
    ultimately show ?thesis by (metis append_eq_conv_conj)
  qed
  then have d1: "drop 1023 (b @ r) = last b # r" using assms(2) by simp
  show ?thesis
    using ne assms(1) assms(2)
    by (simp add: ReadLine_def t d d1 del: take_append drop_append)
qed

lemma ReadLine_end:
  assumes "LF \<notin> set b" and "length b < 1024"
  shows "ReadLine 1024 b = ((b, False, if b = [] then Some EOF else None), [])"
  using assms by (simp add: ReadLine_def)

lemma Reader_ReadLine_closes:
  assumes "emptyWrites cs < 100" and "length b \<le> 1024"
  shows "\<exists>b' cs'. Reader_ReadLine b cs True = Some (fst (ReadLine 1024 (b @ concat cs)), b', cs')
           \<and> b' @ concat cs' = snd (ReadLine 1024 (b @ concat cs))
           \<and> emptyWrites cs' \<le> emptyWrites cs \<and> length b' \<le> 1024"
  using assms
proof (induction "1024 - length b" arbitrary: b cs rule: less_induct)
  case less
  show ?case
  proof (cases "LF \<in> set b")
    case True
    have "Reader_ReadLine b cs True
            = Some ((if takeWhile (\<lambda>ch. ch \<noteq> LF) b \<noteq> [] \<and> last (takeWhile (\<lambda>ch. ch \<noteq> LF) b) = CR
                     then butlast (takeWhile (\<lambda>ch. ch \<noteq> LF) b) else takeWhile (\<lambda>ch. ch \<noteq> LF) b,
                     False, None),
                    drop (length (takeWhile (\<lambda>ch. ch \<noteq> LF) b) + 1) b, cs)"
      using True by (subst Reader_ReadLine.simps) (simp add: Let_def)
    then show ?thesis
      using less.prems by (simp add: ReadLine_buffered_line[OF True less.prems(2)])
  next
    case nl: False
    show ?thesis
    proof (cases "length b \<ge> 1024")
      case True
      then have l: "length b = 1024" using less.prems(2) by simp
      have "Reader_ReadLine b cs True
              = (if last b = CR then Some ((butlast b, True, None), [CR], cs)
                 else Some ((b, True, None), [], cs))"
        using nl True by (subst Reader_ReadLine.simps) simp
      then show ?thesis
        using less.prems(1) by (simp add: ReadLine_buffer_full[OF nl l])
    next
      case short: False
      then have s: "length b < 1024" by simp
      from fill_closes[of cs 0 b] less.prems(1) s obtain b1 cs1 er where
        f: "fill 0 b cs True = Some (b1, cs1, er)"
        and r: "b1 @ concat cs1 = b @ concat cs" "emptyWrites cs1 \<le> emptyWrites cs"
          "length b1 \<le> 1024"
        and o: "er = None \<and> length b < length b1
                  \<or> er = Some EOF \<and> b1 = b \<and> cs1 = [] \<and> concat cs = []"
        by auto
      from o show ?thesis
      proof
        assume a: "er = None \<and> length b < length b1"
        have u: "Reader_ReadLine b cs True = Reader_ReadLine b1 cs1 True"
          using nl short f a by (subst Reader_ReadLine.simps) simp
        have m: "1024 - length b1 < 1024 - length b" using a s by arith
        have e1: "emptyWrites cs1 < 100" using r(2) less.prems(1) by simp
        from less.hyps[OF m e1 r(3)] obtain b' cs' where
          "Reader_ReadLine b1 cs1 True = Some (fst (ReadLine 1024 (b1 @ concat cs1)), b', cs')"
          "b' @ concat cs' = snd (ReadLine 1024 (b1 @ concat cs1))"
          "emptyWrites cs' \<le> emptyWrites cs1" "length b' \<le> 1024"
          by blast
        then show ?thesis unfolding u r(1) using r(2) by auto
      next
        assume a: "er = Some EOF \<and> b1 = b \<and> cs1 = [] \<and> concat cs = []"
        have u: "Reader_ReadLine b cs True
                   = Some ((b, False, if b = [] then Some EOF else None), [], [])"
          using nl short f a by (subst Reader_ReadLine.simps) simp
        have cc: "concat cs = []" using a by simp
        show ?thesis
          unfolding u cc using a by (simp add: ReadLine_end[OF nl s])
      qed
    qed
  qed
qed

lemma ReadLine_shorter:
  assumes "ReadLine 1024 s = ((line, False, None), rest)"
  shows "length rest < length s"
proof (cases "s = []")
  case True
  then show ?thesis using assms by (simp add: ReadLine_def)
next
  case ne: False
  show ?thesis
  proof (cases "LF \<in> set (take 1024 s)")
    case True
    with ne assms have "rest = drop (length (takeWhile (\<lambda>ch. ch \<noteq> LF) s) + 1) s"
      by (simp add: ReadLine_def Let_def)
    then show ?thesis using ne by simp
  next
    case nl: False
    show ?thesis
    proof (cases "1024 \<le> length s")
      case True
      with ne nl assms show ?thesis by (simp add: ReadLine_def split: if_splits)
    next
      case False
      with ne nl assms have "rest = []" by (simp add: ReadLine_def)
      then show ?thesis using ne by simp
    qed
  qed
qed

lemma pipe_headerLoop_closes:
  assumes "emptyWrites cs < 100" and "length b \<le> 1024"
  shows "\<exists>X b' cs'. pipe_headerLoop w b cs True hs sc n = Some (X, b', cs')
           \<and> headerLoop w (b @ concat cs) hs sc n
               = (case X of Inl x \<Rightarrow> Inl x
                  | Inr (hh, cc, kk, saw) \<Rightarrow> Inr (hh, cc, kk, saw, b' @ concat cs'))
           \<and> emptyWrites cs' \<le> emptyWrites cs \<and> length b' \<le> 1024"
  using assms
proof (induction "length (b @ concat cs)" arbitrary: b cs hs sc n rule: less_induct)
  case less
  obtain line isPrefix er rest where
    RL: "ReadLine 1024 (b @ concat cs) = ((line, isPrefix, er), rest)"
    by (cases "ReadLine 1024 (b @ concat cs)") auto
  from Reader_ReadLine_closes[OF less.prems] RL obtain b1 cs1 where
    P: "Reader_ReadLine b cs True = Some ((line, isPrefix, er), b1, cs1)"
    and r: "b1 @ concat cs1 = rest" and e: "emptyWrites cs1 \<le> emptyWrites cs"
    and l: "length b1 \<le> 1024"
    by auto
  have e1: "emptyWrites cs1 < 100" using e less.prems(1) by simp
  have stop: ?case
    if "pipe_headerLoop w b cs True hs sc n = Some (X, b1, cs1)"
      and "headerLoop w (b @ concat cs) hs sc n
             = (case X of Inl x \<Rightarrow> Inl x
                | Inr (hh, cc, kk, saw) \<Rightarrow> Inr (hh, cc, kk, saw, rest))"
    for X
    using that e l r by auto
  have go: ?case
    if g: "\<not> isPrefix" "er = None"
      and "pipe_headerLoop w b cs True hs sc n = pipe_headerLoop w b1 cs1 True hs' sc' (n + 1)"
      and "headerLoop w (b @ concat cs) hs sc n = headerLoop w rest hs' sc' (n + 1)"
    for hs' sc'
  proof -
    have "ReadLine 1024 (b @ concat cs) = ((line, False, None), rest)"
      using RL g by simp
    then have "length rest < length (b @ concat cs)"
      by (rule ReadLine_shorter)
    then have m: "length (b1 @ concat cs1) < length (b @ concat cs)" using r by simp
    from less.hyps[OF m e1 l, of hs' sc' "n + 1"] obtain X b' cs' where
      "pipe_headerLoop w b1 cs1 True hs' sc' (n + 1) = Some (X, b', cs')"
      "headerLoop w (b1 @ concat cs1) hs' sc' (n + 1)
         = (case X of Inl x \<Rightarrow> Inl x
            | Inr (hh, cc, kk, saw) \<Rightarrow> Inr (hh, cc, kk, saw, b' @ concat cs'))"
      "emptyWrites cs' \<le> emptyWrites cs1" "length b' \<le> 1024"
      by blast
    then show ?thesis using that(3,4) r e by auto
  qed
  show ?case
  proof (cases "isPrefix \<or> er \<noteq> None \<or> length line = 0")
    case True
    show ?thesis
    proof (rule stop)
      show "pipe_headerLoop w b cs True hs sc n
              = Some ((if isPrefix then
                         Inl (Errorf ''long header line from subprocess'',
                              WriteHeader StatusInternalServerError w)
                       else if er = Some EOF then Inr (hs, sc, n, False)
                       else if er \<noteq> None then
                         Inl (Errorf ''error reading headers: '',
                              WriteHeader StatusInternalServerError w)
                       else Inr (hs, sc, n, True)), b1, cs1)"
        using True by (subst pipe_headerLoop.simps) (auto simp: P)
      show "headerLoop w (b @ concat cs) hs sc n
              = (case (if isPrefix then
                         Inl (Errorf ''long header line from subprocess'',
                              WriteHeader StatusInternalServerError w)
                       else if er = Some EOF then Inr (hs, sc, n, False)
                       else if er \<noteq> None then
                         Inl (Errorf ''error reading headers: '',
                              WriteHeader StatusInternalServerError w)
                       else Inr (hs, sc, n, True)) of
                   Inl x \<Rightarrow> Inl x
                 | Inr (hh, cc, kk, saw) \<Rightarrow> Inr (hh, cc, kk, saw, rest))"
        using True by (subst headerLoop.simps) (auto simp: RL)
    qed
  next
    case False
    then have g: "\<not> isPrefix" "er = None" "length line \<noteq> 0" by simp_all
    show ?thesis
    proof (cases "CHR '':'' \<in> set line")
      case nc: False
      then have sp: "SplitN2 line = [line]" by (simp add: SplitN2_def)
      show ?thesis
      proof (rule stop)
        show "pipe_headerLoop w b cs True hs sc n
                = Some (Inl (Errorf (''bogus header line: '' @ line), w), b1, cs1)"
          using g by (subst pipe_headerLoop.simps) (simp add: P sp)
        show "headerLoop w (b @ concat cs) hs sc n
                = (case Inl (Errorf (''bogus header line: '' @ line), w) of
                     Inl x \<Rightarrow> Inl x
                   | Inr (hh, cc, kk, saw) \<Rightarrow> Inr (hh, cc, kk, saw, rest))"
          using g by (subst headerLoop.simps) (simp add: RL sp)
      qed
    next
      case True
      define p0 where "p0 = takeWhile (\<lambda>ch. ch \<noteq> CHR '':'') line"
      define p1 where "p1 = tl (dropWhile (\<lambda>ch. ch \<noteq> CHR '':'') line)"
      have sp: "SplitN2 line = [p0, p1]" using True by (simp add: SplitN2_def p0_def p1_def)
      show ?thesis
      proof (cases "TrimSpace p0 = ''Status''")
        case st: True
        show ?thesis
        proof (cases "length (TrimSpace p1) < 3")
          case True
          show ?thesis
          proof (rule stop)
            show "pipe_headerLoop w b cs True hs sc n
                    = Some (Inl (Errorf ''bogus status (short): '', w), b1, cs1)"
              using g st True by (subst pipe_headerLoop.simps) (simp add: P sp Let_def)
            show "headerLoop w (b @ concat cs) hs sc n
                    = (case Inl (Errorf ''bogus status (short): '', w) of
                         Inl x \<Rightarrow> Inl x
                       | Inr (hh, cc, kk, saw) \<Rightarrow> Inr (hh, cc, kk, saw, rest))"
              using g st True by (subst headerLoop.simps) (simp add: RL sp Let_def)
          qed
        next
          case l3: False
          show ?thesis
          proof (cases "Atoi (take 3 (TrimSpace p1))")
            case None
            show ?thesis
            proof (rule stop)
              show "pipe_headerLoop w b cs True hs sc n
                      = Some (Inl (Errorf ''bogus status: '', w), b1, cs1)"
                using g st l3 None by (subst pipe_headerLoop.simps) (simp add: P sp Let_def)
              show "headerLoop w (b @ concat cs) hs sc n
                      = (case Inl (Errorf ''bogus status: '', w) of
                           Inl x \<Rightarrow> Inl x
                         | Inr (hh, cc, kk, saw) \<Rightarrow> Inr (hh, cc, kk, saw, rest))"
                using g st l3 None by (subst headerLoop.simps) (simp add: RL sp Let_def)
            qed
          next
            case (Some code)
            show ?thesis
            proof (rule go[OF g(1,2)])
              show "pipe_headerLoop w b cs True hs sc n
                      = pipe_headerLoop w b1 cs1 True hs code (n + 1)"
                using g st l3 Some by (subst pipe_headerLoop.simps) (simp add: P sp Let_def)
              show "headerLoop w (b @ concat cs) hs sc n = headerLoop w rest hs code (n + 1)"
                using g st l3 Some by (subst headerLoop.simps) (simp add: RL sp Let_def)
            qed
          qed
        qed
      next
        case ns: False
        show ?thesis
        proof (rule go[OF g(1,2)])
          show "pipe_headerLoop w b cs True hs sc n
                  = pipe_headerLoop w b1 cs1 True
                      (Header_Add (TrimSpace p0) (TrimSpace p1) hs) sc (n + 1)"
            using g ns by (subst pipe_headerLoop.simps) (simp add: P sp Let_def)
          show "headerLoop w (b @ concat cs) hs sc n
                  = headerLoop w rest (Header_Add (TrimSpace p0) (TrimSpace p1) hs) sc (n + 1)"
            using g ns by (subst headerLoop.simps) (simp add: RL sp Let_def)
        qed
      qed
    qed
  qed
qed

lemma ResponseWriter_Write_io_Copy: "ResponseWriter_Write w p = io_Copy w p"
  by (simp add: ResponseWriter_Write_def io_Copy_def)

lemma copyLoop_closes:
  assumes "emptyWrites cs < 100"
  shows "\<exists>left. copyLoop w cs True
           = Some ((case io_Copy w (concat cs) of
                      (Some e, w3) \<Rightarrow> (Some (Errorf ''copy error: ''), w3)
                    | (None, w3) \<Rightarrow> (None, w3)), left)"
  using assms
proof (induction "length (concat cs)" arbitrary: w cs rule: less_induct)
  case less
  from fill_closes[of cs 0 "[]"] less.prems obtain d cs1 er where
    f: "fill 0 [] cs True = Some (d, cs1, er)"
    and r: "d @ concat cs1 = concat cs" and e: "emptyWrites cs1 \<le> emptyWrites cs"
    and o: "er = None \<and> 0 < length d \<or> er = Some EOF \<and> d = [] \<and> cs1 = [] \<and> concat cs = []"
    by auto
  from o show ?case
  proof
    assume a: "er = Some EOF \<and> d = [] \<and> cs1 = [] \<and> concat cs = []"
    then have cc: "concat cs = []" by simp
    have "copyLoop w cs True = Some ((None, w), [])"
      using f a by (subst copyLoop.simps) simp
    then show ?thesis unfolding cc by (simp add: io_Copy_def)
  next
    assume a: "er = None \<and> 0 < length d"
    then have dn: "d \<noteq> []" by auto
    then have cn: "concat cs \<noteq> []" using r by (metis append_is_Nil_conv)
    show ?thesis
    proof (cases "rw_fail w")
      case (Some x)
      have "copyLoop w cs True = Some ((Some (Errorf ''copy error: ''), w), cs1)"
        using f a dn Some by (subst copyLoop.simps) (simp add: ResponseWriter_Write_def)
      then show ?thesis using cn Some by (simp add: io_Copy_def)
    next
      case None
      let ?w = "w\<lparr>rw_body := rw_body w @ d\<rparr>"
      have u: "copyLoop w cs True = copyLoop ?w cs1 True"
        using f a dn None by (subst copyLoop.simps) (simp add: ResponseWriter_Write_def)
      have m: "length (concat cs1) < length (concat cs)"
        using a by (simp add: r[symmetric])
      have e1: "emptyWrites cs1 < 100" using e less.prems by simp
      from less.hyps[OF m e1, of ?w] obtain left where
        "copyLoop ?w cs1 True
           = Some ((case io_Copy ?w (concat cs1) of
                      (Some e, w3) \<Rightarrow> (Some (Errorf ''copy error: ''), w3)
                    | (None, w3) \<Rightarrow> (None, w3)), left)"
        by blast
      then have "copyLoop w cs True = Some ((None, w\<lparr>rw_body := rw_body w @ concat cs\<rparr>), left)"
        unfolding u using None by (simp add: io_Copy_def r[symmetric])
      then show ?thesis using cn None by (simp add: io_Copy_def)
    qed
  qed
qed

lemma copy_closes:
  assumes "emptyWrites cs < 100"
  shows "\<exists>left. (case ResponseWriter_Write w b of
                    (ew, w3) \<Rightarrow>
                      if ew \<noteq> None then Some ((Some (Errorf ''copy error: ''), w3), cs)
                      else copyLoop w3 cs True)
           = Some ((case io_Copy w (b @ concat cs) of
                      (Some e, w3) \<Rightarrow> (Some (Errorf ''copy error: ''), w3)
                    | (None, w3) \<Rightarrow> (None, w3)), left)"
proof (cases "b = []")
  case True
  then show ?thesis using copyLoop_closes[OF assms, of w] by (simp add: ResponseWriter_Write_def)
next
  case bn: False
  show ?thesis
  proof (cases "rw_fail w")
    case (Some x)
    then show ?thesis using bn by (simp add: ResponseWriter_Write_def io_Copy_def)
  next
    case None
    let ?w = "w\<lparr>rw_body := rw_body w @ b\<rparr>"
    from copyLoop_closes[OF assms, of ?w] obtain left where
      "copyLoop ?w cs True
         = Some ((case io_Copy ?w (concat cs) of
                    (Some e, w3) \<Rightarrow> (Some (Errorf ''copy error: ''), w3)
                  | (None, w3) \<Rightarrow> (None, w3)), left)"
      by blast
    then have "copyLoop ?w cs True
                 = Some ((None, w\<lparr>rw_body := rw_body w @ b @ concat cs\<rparr>), left)"
      using None by (simp add: io_Copy_def)
    then show ?thesis using bn None by (simp add: ResponseWriter_Write_def io_Copy_def)
  qed
qed

lemma pipe_writeResponse_closes:
  assumes "emptyWrites cs < 100"
  shows "\<exists>left. pipe_writeResponse w cs True = Some (writeResponse w (concat cs), left)"
proof -
  from pipe_headerLoop_closes[OF assms, of "[]" w "[]" 0 0] obtain X b' cs' where
    p: "pipe_headerLoop w [] cs True [] 0 0 = Some (X, b', cs')"
    and h: "headerLoop w (concat cs) [] 0 0
              = (case X of Inl x \<Rightarrow> Inl x
                 | Inr (hh, cc, kk, saw) \<Rightarrow> Inr (hh, cc, kk, saw, b' @ concat cs'))"
    and e: "emptyWrites cs' \<le> emptyWrites cs"
    by auto
  have e1: "emptyWrites cs' < 100" using e assms by simp
  show ?thesis
  proof (cases X)
    case (Inl x)
    then show ?thesis
      unfolding pipe_writeResponse_def writeResponse_def p h by (cases x) simp
  next
    case (Inr y)
    obtain hh cc kk saw where y: "y = (hh, cc, kk, saw)" by (cases y) auto
    show ?thesis
    proof (cases "kk = 0 \<or> \<not> saw")
      case True
      then show ?thesis
        unfolding pipe_writeResponse_def writeResponse_def p h Inr y by auto
    next
      case ok: False
      define sc1 where "sc1 = (if Header_Get ''Location'' hh \<noteq> [] \<and> cc = 0 then StatusFound else cc)"
      show ?thesis
      proof (cases "sc1 = 0 \<and> Header_Get ''Content-Type'' hh = []")
        case True
        then show ?thesis
          unfolding pipe_writeResponse_def writeResponse_def p h Inr y using ok
          by (simp add: Let_def sc1_def)
      next
        case False
        define w2 where "w2 = WriteHeader (if sc1 = 0 then StatusOK else sc1)
            (w\<lparr>rw_header :=
                 foldl (\<lambda>hd0 (k, vv). foldl (\<lambda>hd1 v. Header_Add k v hd1) hd0 vv)
                   (rw_header w) hh\<rparr>)"
        from copy_closes[OF e1, of w2 b'] obtain left where
          c: "(case ResponseWriter_Write w2 b' of
                 (ew, w3) \<Rightarrow>
                   if ew \<noteq> None then Some ((Some (Errorf ''copy error: ''), w3), cs')
                   else copyLoop w3 cs' True)
              = Some ((case io_Copy w2 (b' @ concat cs') of
                         (Some e, w3) \<Rightarrow> (Some (Errorf ''copy error: ''), w3)
                       | (None, w3) \<Rightarrow> (None, w3)), left)"
          by blast
        have 1: "pipe_writeResponse w cs True
                   = (case ResponseWriter_Write w2 b' of
                        (ew, w3) \<Rightarrow>
                          if ew \<noteq> None then Some ((Some (Errorf ''copy error: ''), w3), cs')
                          else copyLoop w3 cs' True)"
          unfolding pipe_writeResponse_def p Inr y using ok False
          by (simp add: Let_def sc1_def w2_def)
        have 2: "writeResponse w (concat cs)
                   = (case io_Copy w2 (b' @ concat cs') of
                        (Some e, w3) \<Rightarrow> (Some (Errorf ''copy error: ''), w3)
                      | (None, w3) \<Rightarrow> (None, w3))"
          unfolding writeResponse_def h Inr y using ok False
          by (simp add: Let_def sc1_def w2_def)
        show ?thesis unfolding 1 2 c by simp
      qed
    qed
  qed
qed

section \<open>Claims about the codec\<close>

text \<open>C1. For every record type, request id and payload \<open>b\<close> of at most 65535 bytes,
  \<open>writeRecord\<close> hands the stream, in one \<open>Write\<close>, the 8 header bytes (version 1, the
  type, the request id and the content length \<open>length b\<close> in big-endian order, the
  padding length \<open>(- length b) mod 8\<close>, the reserved byte of the connection's header),
  then \<open>b\<close>, then that many padding bytes; content length plus padding length is a
  multiple of 8. The result of \<open>writeRecord\<close> is the result of that \<open>Write\<close>.\<close>

theorem writeRecord_emits_framed_record:
  assumes "length b \<le> 65535"
  shows "writeRecord wr rt rid b c =
           (let bytes = [1, rt, of_nat (unat rid div 256), of_nat (unat rid mod 256),
                         of_nat (length b div 256), of_nat (length b mod 256),
                         of_nat (nat ((- int (length b)) mod 8)), Reserved (h c)]
                        @ b @ replicate (nat ((- int (length b)) mod 8)) 0;
                (s', e) = wr (rwc c) bytes
            in (e, c\<lparr>rwc := s', buf := bytes,
                     h := \<lparr>Version = 1, Type = rt, ID = rid,
                            ContentLength = of_nat (length b),
                            PaddingLength = of_nat (nat ((- int (length b)) mod 8)),
                            Reserved = Reserved (h c)\<rparr>\<rparr>))
         \<and> unat (of_nat (length b) :: u16) = length b
         \<and> unat (of_nat (nat ((- int (length b)) mod 8)) :: byte) = nat ((- int (length b)) mod 8)
         \<and> (length b + nat ((- int (length b)) mod 8)) mod 8 = 0"
proof -
  have "writeRecord wr rt rid b c =
           (let bytes = [1, rt, of_nat (unat rid div 256), of_nat (unat rid mod 256),
                         of_nat (length b div 256), of_nat (length b mod 256),
                         of_nat (nat ((- int (length b)) mod 8)), Reserved (h c)]
                        @ b @ replicate (nat ((- int (length b)) mod 8)) 0;
                (s', e) = wr (rwc c) bytes
            in (e, c\<lparr>rwc := s', buf := bytes,
                     h := \<lparr>Version = 1, Type = rt, ID = rid,
                            ContentLength = of_nat (length b),
                            PaddingLength = of_nat (nat ((- int (length b)) mod 8)),
                            Reserved = Reserved (h c)\<rparr>\<rparr>))"
    unfolding writeRecord_frame[OF assms] frame_def padding_of_def Let_def
    by (cases "h c") simp
  moreover have "unat (of_nat (length b) :: u16) = length b"
    using assms by (rule unat_of_nat_u16)
  moreover have "unat (of_nat (nat ((- int (length b)) mod 8)) :: byte) = nat ((- int (length b)) mod 8)"
  proof -
    have "padding_of (length b) \<le> 255" using padding_of_less[of "length b"] by simp
    then show ?thesis unfolding padding_of_def by (rule unat_of_nat_byte)
  qed
  moreover have "(length b + nat ((- int (length b)) mod 8)) mod 8 = 0"
    using padding_of_sum[of "length b"] unfolding padding_of_def .
  ultimately show ?thesis by (simp only: simp_thms)
qed

theorem writeRecord_emits_framed_record_witness:
  "length [104, 105, 33 :: byte] \<le> 65535
   \<and> writeRecord wire_Write typeStdin 1 [104, 105, 33] (newConn [])
       = (None, \<lparr>rwc = [[1, 5, 0, 1, 0, 3, 5, 0, 104, 105, 33, 0, 0, 0, 0, 0]],
                  buf = [1, 5, 0, 1, 0, 3, 5, 0, 104, 105, 33, 0, 0, 0, 0, 0],
                  h = \<lparr>Version = 1, Type = 5, ID = 1, ContentLength = 3,
                        PaddingLength = 5, Reserved = 0\<rparr>\<rparr>)"
  using writeRecord_emits_framed_record[of "[104, 105, 33]" wire_Write typeStdin 1 "newConn []"]
  by (simp add: wire_Write_def typeStdin_def newConn_def header_zero_def Let_def replicate_5)

text \<open>C4. For every length \<open>size0 \<le> 2^31 - 1\<close> and every slice with room for it,
  \<open>encodeSize\<close> writes exactly one byte (the length itself, high bit clear) when
  \<open>size0 \<le> 127\<close> and otherwise exactly four bytes, the big-endian bytes of
  \<open>size0 + 2^31\<close> (so the first has its high bit set), leaves the rest of the slice as it
  was and returns the number of bytes written; \<open>readSize\<close> on the bytes written, whatever
  follows them, returns \<open>size0\<close> and that same count.\<close>

theorem encodeSize_readSize_inverse:
  assumes "size0 \<le> 2147483647"
    and "(if size0 \<le> 127 then 1 else 4) \<le> length b"
  shows "let n = (if size0 \<le> 127 then 1 else 4);
             enc = (if size0 \<le> 127 then [ucast size0]
                    else [of_nat ((unat size0 + 2147483648) div 16777216 mod 256),
                          of_nat ((unat size0 + 2147483648) div 65536 mod 256),
                          of_nat ((unat size0 + 2147483648) div 256 mod 256),
                          of_nat ((unat size0 + 2147483648) mod 256)])
         in encodeSize b size0 = Inr (enc @ drop n b, n)
            \<and> length enc = n
            \<and> bit (hd enc) 7 = (127 < size0)
            \<and> (if size0 \<le> 127 then unat (hd enc) = unat size0 else True)
            \<and> readSize (enc @ rest) = (size0, n)"
proof (cases "size0 \<le> 127")
  case True
  then have l: "1 \<le> length b" using assms(2) by simp
  have n: "\<not> 127 < size0" using True by simp
  show ?thesis
    using True n encodeSize_small[OF True l] readSize_small[OF True, of rest]
      small_byte_bit7[OF True]
    by (simp add: Let_def)
next
  case False
  then have g: "127 < size0" by simp
  have l: "4 \<le> length b" using assms(2) False by simp
  have lt: "size0 < 2 ^ 31" using assms(1) by (rule le_max31)
  note e = encodeSize_big[OF g lt l]
  show ?thesis
    using False g e(1,3) e(2)[of rest] unfolding e(4) by (simp add: Let_def)
qed

theorem encodeSize_readSize_inverse_witness:
  "(5 :: u32) \<le> 2147483647 \<and> (300 :: u32) \<le> 2147483647
   \<and> encodeSize [9, 9, 9, 9, 9, 9, 9, 9] 5 = Inr ([5, 9, 9, 9, 9, 9, 9, 9], 1)
   \<and> readSize [5] = (5, 1)
   \<and> encodeSize [9, 9, 9, 9, 9, 9, 9, 9] 300 = Inr ([128, 0, 1, 44, 9, 9, 9, 9], 4)
   \<and> readSize [128, 0, 1, 44] = (300, 4)"
  using encodeSize_readSize_inverse[of 5 "[9, 9, 9, 9, 9, 9, 9, 9]" "[]"]
    encodeSize_readSize_inverse[of 300 "[9, 9, 9, 9, 9, 9, 9, 9]" "[]"]
  by (simp add: Let_def)


section \<open>Claims about the client and the pool\<close>

text \<open>C7. A failing dial inside \<open>CreateClient\<close> is meant to reach the caller. In the code
  the result of \<open>pc.NewConn()\<close> is dropped: a pool stocked through
  \<open>SimpleClientFactoryNoConn\<close> over a connection factory that cannot dial hands out the
  \<open>PoolClient\<close> with a nil error and a client that has no connection. (The sibling
  \<open>SimpleClientFactory\<close> returns the dial error.)\<close>

theorem CreateClient_drops_dial_error:
  "stock_one (SimpleClientFactoryNoConn (\<lambda>u. Inl (Errorf ''dial tcp: connection refused'')) 0)
      30 0 \<lparr>pool = [], poolTag = 0, scale = 10\<rparr>
    = Some \<lparr>pool = [\<lparr>Client = Some \<lparr>conn = None,
                                       connFactory = (\<lambda>u. Inl (Errorf ''dial tcp: connection refused'')),
                                       idPool = newIDPool 0\<rparr>,
                       Err = None, expires = 30\<rparr>],
             poolTag = 1, scale = 10\<rparr>
   \<and> CreateClient
        \<lparr>pool = [\<lparr>Client = Some \<lparr>conn = (None :: byte list list conn option),
                                  connFactory = (\<lambda>u. Inl (Errorf ''dial tcp: connection refused'')),
                                  idPool = newIDPool 0\<rparr>,
                  Err = None, expires = 30\<rparr>],
         poolTag = 1, scale = 10\<rparr>
      = Returns ((Some \<lparr>Client = Some \<lparr>conn = None,
                                       connFactory = (\<lambda>u. Inl (Errorf ''dial tcp: connection refused'')),
                                       idPool = newIDPool 0\<rparr>,
                       Err = None, expires = 30\<rparr>, None),
                 \<lparr>pool = [], poolTag = 0, scale = 10\<rparr>)
   \<and> SimpleClientFactory (\<lambda>u. Inl (Errorf ''dial tcp: connection refused'') :: error + byte list list) 0 ()
      = (None, Some (Errorf ''dial tcp: connection refused''))"
  by (simp add: stock_one_def SimpleClientFactoryNoConn_def SimpleClientFactory_def
      CreateClient_def NewConn_def)

text \<open>C9. \<open>Do\<close> on a client without a connection: it first takes a request id from the
  pool (and blocks there if none is offered), makes the \<open>ResponsePipe\<close>, and returns the
  error \<open>client connection has been closed\<close> together with that pipe, whose two writer
  ends are open; no goroutine has been started, and the client's id pool is the pool as
  \<open>Alloc\<close> left it, so nothing gives the id back. With a connection, \<open>Do\<close> starts the
  supervisor for that id, and the supervisor releases the id and closes both writer ends.\<close>

theorem Do_nil_conn_leaks_request_id:
  assumes "Alloc sch (idPool c) = Some (rid, pool')"
  shows "(if conn c = None then
            Do sch req c =
              Some (\<lparr>resp = NewResponsePipe,
                      err = Some (Errorf ''client connection has been closed''),
                      spawned = []\<rparr>, c\<lparr>idPool := pool'\<rparr>)
          else
            Do sch req c =
              Some (\<lparr>resp = NewResponsePipe, err = None,
                      spawned = [AwaitBoth, WriterTask rid, ReaderTask, Supervisor rid]\<rparr>,
                    c\<lparr>idPool := pool'\<rparr>))
         \<and> \<not> stdOutWriterClosed NewResponsePipe \<and> \<not> stdErrWriterClosed NewResponsePipe
         \<and> releasing (snd (supervisor rid errs (NewResponsePipe, pool'))) = releasing pool' @ [rid]
         \<and> stdOutWriterClosed (fst (supervisor rid errs (NewResponsePipe, pool')))
         \<and> stdErrWriterClosed (fst (supervisor rid errs (NewResponsePipe, pool')))
         \<and> (if Alloc sch' (idPool c') = None then Do sch' req c' = None
              else Do sch' req c' \<noteq> None)"
  using assms
  by (auto simp: Do_def NewResponsePipe_def supervisor_def ResponsePipe_Close_def Release_def)

theorem Do_nil_conn_leaks_request_id_witness:
  "Alloc Generator (newIDPool 0) = Some (1, \<lparr>gen_i = 2, gen_maxID = 65535, releasing = []\<rparr>)
   \<and> Do Generator (NewRequest None)
        \<lparr>conn = (None :: byte list list conn option), connFactory = (\<lambda>u. Inr []),
         idPool = newIDPool 0\<rparr>
      = Some (\<lparr>resp = \<lparr>stdOutData = [], stdOutWriterClosed = False,
                        stdErrData = [], stdErrWriterClosed = False\<rparr>,
              err = Some (Errorf ''client connection has been closed''),
              spawned = []\<rparr>,
             \<lparr>conn = None, connFactory = (\<lambda>u. Inr []),
              idPool = \<lparr>gen_i = 2, gen_maxID = 65535, releasing = []\<rparr>\<rparr>)
   \<and> Do (Releaser 0) (NewRequest None)
        \<lparr>conn = (None :: byte list list conn option), connFactory = (\<lambda>u. Inr []),
         idPool = newIDPool 0\<rparr> = None"
proof -
  have a: "Alloc Generator (newIDPool 0) = Some (1, \<lparr>gen_i = 2, gen_maxID = 65535, releasing = []\<rparr>)"
    by (simp add: Alloc_def newIDPool_def)
  have b: "Alloc (Releaser 0) (newIDPool 0) = None"
    by (simp add: Alloc_def newIDPool_def)
  show ?thesis
    using Do_nil_conn_leaks_request_id[where sch = Generator
        and c = "\<lparr>conn = (None :: byte list list conn option), connFactory = (\<lambda>u. Inr []),
          idPool = newIDPool 0\<rparr>" and rid = 1
        and pool' = "\<lparr>gen_i = 2, gen_maxID = 65535, releasing = []\<rparr>"
        and req = "NewRequest None" and errs = "[]" and sch' = "Releaser 0"
        and c' = "\<lparr>conn = (None :: byte list list conn option), connFactory = (\<lambda>u. Inr []),
          idPool = newIDPool 0\<rparr>"] a b
    by (simp add: NewResponsePipe_def)
qed

text \<open>C10. \<open>CreateClient\<close> takes a \<open>PoolClient\<close> from the stock and calls \<open>NewConn\<close> on it at
  once; it reads \<open>Err\<close> only as its fourth step, after the receive from \<open>poolTag\<close>, and only
  in runs in which the \<open>Client\<close> is not nil. On a nil \<open>Client\<close> the call of \<open>NewConn\<close> is a
  method call on nil, a panic, whatever \<open>Err\<close> holds. On a \<open>Client\<close> that is not nil \<open>NewConn\<close>
  runs: with \<open>Err\<close> set \<open>CreateClient\<close> returns that error and no client, with \<open>Err\<close> nil it
  returns the \<open>PoolClient\<close> whose client is the one \<open>NewConn\<close> left. An error is returned
  only for a \<open>PoolClient\<close> whose \<open>Client\<close> is not nil. A failed \<open>SimpleClientFactory\<close> returns
  the nil \<open>Client\<close> with its error, the stocker stores both, and \<open>CreateClient\<close> panics on
  that \<open>PoolClient\<close>; a \<open>SimpleClientFactory\<close> that does not fail returns a client and no
  error.\<close>

theorem CreateClient_NewConn_before_Err:
  assumes "pool p = pc # rest"
  shows "snd (CreateClient_steps p) = CreateClient p
   \<and> take 2 (fst (CreateClient_steps p)) = [RecvPool, CallNewConn]
   \<and> (ReadErr \<in> set (fst (CreateClient_steps p))) = (Client pc \<noteq> None \<and> 0 < poolTag p)
   \<and> (ReadErr \<in> set (fst (CreateClient_steps p))
        \<longrightarrow> fst (CreateClient_steps p) = [RecvPool, CallNewConn, RecvPoolTag, ReadErr])
   \<and> (Client pc = None \<longrightarrow> CreateClient p = Panics)
   \<and> (Client pc = Some cl \<and> 0 < poolTag p \<and> Err pc = Some e
        \<longrightarrow> CreateClient p
              = Returns ((None, Some e), p\<lparr>pool := rest, poolTag := poolTag p - 1\<rparr>))
   \<and> (Client pc = Some cl \<and> 0 < poolTag p \<and> Err pc = None
        \<longrightarrow> CreateClient p
              = Returns ((Some (pc\<lparr>Client := Some (snd (NewConn cl))\<rparr>), None),
                         p\<lparr>pool := rest, poolTag := poolTag p - 1\<rparr>))
   \<and> (CreateClient p = Returns ((r, Some e'), p')
        \<longrightarrow> Client pc \<noteq> None \<and> Err pc = Some e' \<and> r = None)
   \<and> (case cf () of
         Inl e'' \<Rightarrow> SimpleClientFactory cf limit () = (None, Some e'')
                  \<and> stock_one (SimpleClientFactory cf limit) ttl now
                        \<lparr>pool = [], poolTag = 0, scale = Suc n\<rparr>
                      = Some \<lparr>pool = [\<lparr>Client = None, Err = Some e'', expires = now + ttl\<rparr>],
                               poolTag = 1, scale = Suc n\<rparr>
                  \<and> map_option CreateClient
                        (stock_one (SimpleClientFactory cf limit) ttl now
                           \<lparr>pool = [], poolTag = 0, scale = Suc n\<rparr>) = Some Panics
       | Inr s \<Rightarrow> fst (SimpleClientFactory cf limit ()) \<noteq> None
                 \<and> snd (SimpleClientFactory cf limit ()) = None)"
proof -
  have s0: "snd (CreateClient_steps p) = CreateClient p
     \<and> take 2 (fst (CreateClient_steps p)) = [RecvPool, CallNewConn]
     \<and> (ReadErr \<in> set (fst (CreateClient_steps p))) = (Client pc \<noteq> None \<and> 0 < poolTag p)
     \<and> (ReadErr \<in> set (fst (CreateClient_steps p))
          \<longrightarrow> fst (CreateClient_steps p) = [RecvPool, CallNewConn, RecvPoolTag, ReadErr])"
  proof (cases "Client pc")
    case None
    then show ?thesis using assms by (simp add: CreateClient_steps_def CreateClient_def)
  next
    case (Some cl0)
    obtain e1 cl1 where n: "NewConn cl0 = (e1, cl1)" by (cases "NewConn cl0") auto
    show ?thesis
      using assms Some n
      by (cases "Err pc") (simp_all add: CreateClient_steps_def CreateClient_def)
  qed
  have s1: "Client pc = None \<longrightarrow> CreateClient p = Panics"
    using assms by (simp add: CreateClient_def)
  have s2: "Client pc = Some cl \<and> 0 < poolTag p \<and> Err pc = Some e
        \<longrightarrow> CreateClient p
              = Returns ((None, Some e), p\<lparr>pool := rest, poolTag := poolTag p - 1\<rparr>)"
    using assms by (cases "NewConn cl") (simp add: CreateClient_def)
  have s3: "Client pc = Some cl \<and> 0 < poolTag p \<and> Err pc = None
        \<longrightarrow> CreateClient p
              = Returns ((Some (pc\<lparr>Client := Some (snd (NewConn cl))\<rparr>), None),
                         p\<lparr>pool := rest, poolTag := poolTag p - 1\<rparr>)"
    using assms by (cases "NewConn cl") (simp add: CreateClient_def)
  have s4: "CreateClient p = Returns ((r, Some e'), p')
        \<longrightarrow> Client pc \<noteq> None \<and> Err pc = Some e' \<and> r = None"
  proof (cases "Client pc")
    case None
    then show ?thesis using assms by (simp add: CreateClient_def)
  next
    case (Some cl0)
    obtain e1 cl1 where n: "NewConn cl0 = (e1, cl1)" by (cases "NewConn cl0") auto
    show ?thesis
      using assms Some n by (cases "Err pc") (auto simp: CreateClient_def)
  qed
  have s5: "(case cf () of
         Inl e'' \<Rightarrow> SimpleClientFactory cf limit () = (None, Some e'')
                  \<and> stock_one (SimpleClientFactory cf limit) ttl now
                        \<lparr>pool = [], poolTag = 0, scale = Suc n\<rparr>
                      = Some \<lparr>pool = [\<lparr>Client = None, Err = Some e'', expires = now + ttl\<rparr>],
                               poolTag = 1, scale = Suc n\<rparr>
                  \<and> map_option CreateClient
                        (stock_one (SimpleClientFactory cf limit) ttl now
                           \<lparr>pool = [], poolTag = 0, scale = Suc n\<rparr>) = Some Panics
       | Inr s \<Rightarrow> fst (SimpleClientFactory cf limit ()) \<noteq> None
                 \<and> snd (SimpleClientFactory cf limit ()) = None)"
    by (cases "cf ()") (simp_all add: SimpleClientFactory_def stock_one_def CreateClient_def)
  note s0a = s0[THEN conjunct1]
  note s0b = s0[THEN conjunct2, THEN conjunct1]
  note s0c = s0[THEN conjunct2, THEN conjunct2, THEN conjunct1]
  note s0d = s0[THEN conjunct2, THEN conjunct2, THEN conjunct2]
  show ?thesis by (intro conjI s0a s0b s0c s0d s1 s2 s3 s4 s5)
qed

theorem CreateClient_NewConn_before_Err_witness:
  "CreateClient \<lparr>pool = [\<lparr>Client = (None :: byte list list client option),
                          Err = Some (Errorf ''dial tcp: connection refused''),
                          expires = 30\<rparr>],
                 poolTag = 1, scale = 10\<rparr> = Panics
   \<and> fst (CreateClient_steps
            \<lparr>pool = [\<lparr>Client = Some \<lparr>conn = (None :: byte list list conn option),
                                      connFactory = (\<lambda>u. Inr []), idPool = newIDPool 0\<rparr>,
                      Err = Some (Errorf ''no client''), expires = 30\<rparr>],
             poolTag = 1, scale = 10\<rparr>)
      = [RecvPool, CallNewConn, RecvPoolTag, ReadErr]
   \<and> CreateClient
        \<lparr>pool = [\<lparr>Client = Some \<lparr>conn = (None :: byte list list conn option),
                                  connFactory = (\<lambda>u. Inr []), idPool = newIDPool 0\<rparr>,
                  Err = Some (Errorf ''no client''), expires = 30\<rparr>],
         poolTag = 1, scale = 10\<rparr>
      = Returns ((None, Some (Errorf ''no client'')), \<lparr>pool = [], poolTag = 0, scale = 10\<rparr>)
   \<and> CreateClient
        \<lparr>pool = [\<lparr>Client = Some \<lparr>conn = (None :: byte list list conn option),
                                  connFactory = (\<lambda>u. Inr []), idPool = newIDPool 0\<rparr>,
                  Err = None, expires = 30\<rparr>],
         poolTag = 1, scale = 10\<rparr>
      = Returns ((Some \<lparr>Client = Some \<lparr>conn = Some (newConn []),
                                       connFactory = (\<lambda>u. Inr []), idPool = newIDPool 0\<rparr>,
                       Err = None, expires = 30\<rparr>, None),
                 \<lparr>pool = [], poolTag = 0, scale = 10\<rparr>)
   \<and> stock_one (SimpleClientFactory (\<lambda>u. Inl (Errorf ''dial tcp: connection refused'') :: error + byte list list) 0)
        30 0 \<lparr>pool = [], poolTag = 0, scale = Suc 9\<rparr>
      = Some \<lparr>pool = [\<lparr>Client = None, Err = Some (Errorf ''dial tcp: connection refused''),
                        expires = 30\<rparr>],
               poolTag = 1, scale = Suc 9\<rparr>"
proof -
  let ?cl = "\<lparr>conn = (None :: byte list list conn option),
              connFactory = (\<lambda>u. Inr []), idPool = newIDPool 0\<rparr>"
  let ?nil = "\<lparr>Client = (None :: byte list list client option),
               Err = Some (Errorf ''dial tcp: connection refused''), expires = 30\<rparr>"
  let ?bad = "\<lparr>Client = Some ?cl, Err = Some (Errorf ''no client''), expires = 30\<rparr>"
  let ?ok = "\<lparr>Client = Some ?cl, Err = None, expires = 30\<rparr>"
  let ?cf = "\<lambda>u. Inl (Errorf ''dial tcp: connection refused'') :: error + byte list list"
  let ?p0 = "\<lparr>pool = ([] :: byte list list PoolClient list), poolTag = 0, scale = 10\<rparr>"
  have pa: "pool \<lparr>pool = [?nil], poolTag = 1, scale = 10\<rparr> = ?nil # []" by simp
  have pb: "pool \<lparr>pool = [?bad], poolTag = 1, scale = 10\<rparr> = ?bad # []" by simp
  have pc: "pool \<lparr>pool = [?ok], poolTag = 1, scale = 10\<rparr> = ?ok # []" by simp
  note A = CreateClient_NewConn_before_Err[where p = "\<lparr>pool = [?nil], poolTag = 1, scale = 10\<rparr>"
        and pc = ?nil and rest = "[]" and cf = ?cf and limit = 0 and ttl = 30 and now = 0 and n = 9
        and cl = ?cl and e = "Errorf []" and r = None and e' = "Errorf []" and p' = ?p0, OF pa]
  note B = CreateClient_NewConn_before_Err[where p = "\<lparr>pool = [?bad], poolTag = 1, scale = 10\<rparr>"
        and pc = ?bad and rest = "[]" and cf = ?cf and limit = 0 and ttl = 30 and now = 0 and n = 9
        and cl = ?cl and e = "Errorf ''no client''" and r = None and e' = "Errorf ''no client''"
        and p' = ?p0, OF pb]
  note C = CreateClient_NewConn_before_Err[where p = "\<lparr>pool = [?ok], poolTag = 1, scale = 10\<rparr>"
        and pc = ?ok and rest = "[]" and cf = ?cf and limit = 0 and ttl = 30 and now = 0 and n = 9
        and cl = ?cl and e = "Errorf []" and r = None and e' = "Errorf []" and p' = ?p0, OF pc]
  note A4 = A[THEN conjunct2, THEN conjunct2, THEN conjunct2, THEN conjunct2]
  note B2 = B[THEN conjunct2, THEN conjunct2]
  note B4 = B2[THEN conjunct2, THEN conjunct2]
  note C4 = C[THEN conjunct2, THEN conjunct2, THEN conjunct2, THEN conjunct2]
  have a1: "CreateClient \<lparr>pool = [?nil], poolTag = 1, scale = 10\<rparr> = Panics"
    using A4[THEN conjunct1] by simp
  have a2: "stock_one (SimpleClientFactory ?cf 0) 30 0 \<lparr>pool = [], poolTag = 0, scale = Suc 9\<rparr>
        = Some \<lparr>pool = [\<lparr>Client = None, Err = Some (Errorf ''dial tcp: connection refused''),
                          expires = 30\<rparr>],
                 poolTag = 1, scale = Suc 9\<rparr>"
    using A4[THEN conjunct2, THEN conjunct2, THEN conjunct2, THEN conjunct2] by simp
  have b0: "ReadErr \<in> set (fst (CreateClient_steps \<lparr>pool = [?bad], poolTag = 1, scale = 10\<rparr>))"
    using B2[THEN conjunct1] by simp
  have b1: "fst (CreateClient_steps \<lparr>pool = [?bad], poolTag = 1, scale = 10\<rparr>)
             = [RecvPool, CallNewConn, RecvPoolTag, ReadErr]"
    using B2[THEN conjunct2, THEN conjunct1] b0 by blast
  have b2: "CreateClient \<lparr>pool = [?bad], poolTag = 1, scale = 10\<rparr>
        = Returns ((None, Some (Errorf ''no client'')), \<lparr>pool = [], poolTag = 0, scale = 10\<rparr>)"
    using B4[THEN conjunct2, THEN conjunct1] by simp
  have c1: "CreateClient \<lparr>pool = [?ok], poolTag = 1, scale = 10\<rparr>
        = Returns ((Some \<lparr>Client = Some \<lparr>conn = Some (newConn []),
                                         connFactory = (\<lambda>u. Inr []), idPool = newIDPool 0\<rparr>,
                         Err = None, expires = 30\<rparr>, None),
                   \<lparr>pool = [], poolTag = 0, scale = 10\<rparr>)"
    using C4[THEN conjunct2, THEN conjunct2, THEN conjunct1] by (simp add: NewConn_def)
  show ?thesis by (intro conjI a1 b1 b2 c1 a2)
qed

section \<open>Claims about the CGI response\<close>

text \<open>C6. A malformed header block should make \<open>WriteTo\<close> return an error and have status
  500 written to the response writer. When \<open>WriteTo\<close> returns, this is what happens: for
  a block without header lines and for a block that is not ended by a blank line
  \<open>writeResponse\<close> writes 500 itself, and for a header line without a colon it returns the
  error \<open>bogus header line\<close> and \<open>ServeHTTP\<close> writes 500 with \<open>http.Error\<close>. But \<open>WriteTo\<close> does
  not return when the application goes on writing to stdout after the bad block, be it
  the empty write of the record that ends its stdout stream: \<open>writeResponse\<close> has
  returned, nothing reads the stdout pipe, that write never returns, the pipes are never
  closed, \<open>writeError\<close> never sees the end of stderr, and \<open>WriteTo\<close> waits for it (stdout
  \<open>foo\<close>, newline, newline, then the empty write; also a lone newline, then the empty
  write). A block that is not ended by a blank line is read to the end of the pipe, so
  there \<open>WriteTo\<close> returns.\<close>

theorem WriteTo_blocks_after_malformed_header:
  "WriteTo True \<lparr>rw_header = [], rw_codes = [], rw_body = [], rw_fail = None\<rparr> ([], None)
       [ToStdout (''foo'' @ [LF, LF]), ToStdout []]
     = Blocks
   \<and> ServeHTTP_WriteTo True \<lparr>rw_header = [], rw_codes = [], rw_body = [], rw_fail = None\<rparr>
       [ToStdout (''foo'' @ [LF, LF]), ToStdout []]
     = Blocks
   \<and> WriteTo True \<lparr>rw_header = [], rw_codes = [], rw_body = [], rw_fail = None\<rparr> ([], None)
       [ToStdout [LF], ToStdout []]
     = Blocks
   \<and> WriteTo True \<lparr>rw_header = [], rw_codes = [], rw_body = [], rw_fail = None\<rparr> ([], None)
       [ToStdout (''foo'' @ [LF, LF])]
     = Returns (Some (Errorf ''bogus header line: foo''),
                \<lparr>rw_header = [], rw_codes = [], rw_body = [], rw_fail = None\<rparr>, ([], None))
   \<and> ServeHTTP_WriteTo True \<lparr>rw_header = [], rw_codes = [], rw_body = [], rw_fail = None\<rparr>
       [ToStdout (''foo'' @ [LF, LF])]
     = Returns \<lparr>rw_header = [(''Content-Type'', [''text/plain; charset=utf-8'']),
                              (''X-Content-Type-Options'', [''nosniff''])],
                 rw_codes = [500], rw_body = ''failed to write stream'' @ [LF], rw_fail = None\<rparr>
   \<and> WriteTo True \<lparr>rw_header = [], rw_codes = [], rw_body = [], rw_fail = None\<rparr> ([], None)
       [ToStdout [LF]]
     = Returns (Some (Errorf ''no headers''),
                \<lparr>rw_header = [], rw_codes = [500], rw_body = [], rw_fail = None\<rparr>, ([], None))
   \<and> WriteTo True \<lparr>rw_header = [], rw_codes = [], rw_body = [], rw_fail = None\<rparr> ([], None)
       [ToStdout (''Content-Type: text/plain'' @ [LF]), ToStdout []]
     = Returns (Some (Errorf ''no headers''),
                \<lparr>rw_header = [], rw_codes = [500], rw_body = [], rw_fail = None\<rparr>, ([], None))"
proof -
  let ?w = "\<lparr>rw_header = [], rw_codes = [], rw_body = [], rw_fail = None\<rparr>"
  have c1: "WriteTo True ?w ([], None)
    [ToStdout (''foo'' @ [LF, LF]), ToStdout []]
    = Blocks"
    by code_simp
  have c2: "ServeHTTP_WriteTo True ?w
    [ToStdout (''foo'' @ [LF, LF]), ToStdout []]
    = Blocks"
    by code_simp
  have c3: "WriteTo True ?w ([], None)
    [ToStdout [LF], ToStdout []]
    = Blocks"
    by code_simp
  have c4: "WriteTo True ?w ([], None)
    [ToStdout (''foo'' @ [LF, LF])]
    = Returns (Some (Errorf ''bogus header line: foo''),
    ?w, ([], None))"
    by code_simp
  have c5: "ServeHTTP_WriteTo True ?w
    [ToStdout (''foo'' @ [LF, LF])]
    = Returns \<lparr>rw_header = [(''Content-Type'', [''text/plain; charset=utf-8'']),
    (''X-Content-Type-Options'', [''nosniff''])],
    rw_codes = [500], rw_body = ''failed to write stream'' @ [LF], rw_fail = None\<rparr>"
    by code_simp
  have c6: "WriteTo True ?w ([], None)
    [ToStdout [LF]]
    = Returns (Some (Errorf ''no headers''),
    \<lparr>rw_header = [], rw_codes = [500], rw_body = [], rw_fail = None\<rparr>, ([], None))"
    by code_simp
  have c7: "WriteTo True ?w ([], None)
    [ToStdout (''Content-Type: text/plain'' @ [LF]), ToStdout []]
    = Returns (Some (Errorf ''no headers''),
    \<lparr>rw_header = [], rw_codes = [500], rw_body = [], rw_fail = None\<rparr>, ([], None))"
    by code_simp
  show ?thesis by (intro conjI c1 c2 c3 c4 c5 c6 c7)
qed

section \<open>Claims about the stream writer\<close>

text \<open>C2. When no \<open>Write\<close> of the underlying stream fails, \<open>streamWriter.Write(p)\<close> hands
  the stream, in order, one framed record of the writer's type and request id for every
  piece of \<open>chop maxWrite p\<close>: the pieces are non-empty, at most 65535 bytes long and
  concatenate to \<open>p\<close> (there is none when \<open>p\<close> is empty), each record reads back as its
  piece, and the count returned is \<open>length p\<close> with no error. \<open>streamWriter.Close()\<close> hands
  the stream exactly one record, of that type and id, with empty content.\<close>

theorem streamWriter_Write_Close_records:
  assumes "\<forall>s bs. snd (wr s bs) = None"
  shows "fst (streamWriter_Write wr w p c) = (length p, None)
       \<and> rwc (snd (streamWriter_Write wr w p c))
           = after_writes wr (rwc c)
               (map (frame (Reserved (h c)) (recType w) (reqID w)) (chop maxWrite p))
       \<and> concat (chop maxWrite p) = p
       \<and> (\<forall>q \<in> set (chop maxWrite p). q \<noteq> [] \<and> length q \<le> 65535
             \<and> map_sum id (\<lambda>(rc, r). (Type (rec_h rc), ID (rec_h rc), content rc, r))
                   (read (frame (Reserved (h c)) (recType w) (reqID w) q @ rest))
                 = Inr (recType w, reqID w, q, rest))
       \<and> chop maxWrite ([] :: byte list) = []
       \<and> fst (streamWriter_Close wr w c) = None
       \<and> rwc (snd (streamWriter_Close wr w c))
           = after_writes wr (rwc c) [frame (Reserved (h c)) (recType w) (reqID w) []]
       \<and> frame (Reserved (h c)) (recType w) (reqID w) []
           = [1, recType w, of_nat (unat (reqID w) div 256), of_nat (unat (reqID w) mod 256),
              0, 0, 0, Reserved (h c)]"
proof -
  note l = streamWriter_Write_loop_nofail[OF assms, of w p 0 c]
  have 1: "fst (streamWriter_Write wr w p c) = (length p, None)"
    using l by (simp add: streamWriter_Write_def)
  have 2: "rwc (snd (streamWriter_Write wr w p c))
           = after_writes wr (rwc c)
               (map (frame (Reserved (h c)) (recType w) (reqID w)) (chop maxWrite p))"
    using l by (simp add: streamWriter_Write_def)
  have 3: "concat (chop maxWrite p) = p"
    by (rule concat_chop) (simp add: maxWrite_def)
  have 4: "\<forall>q \<in> set (chop maxWrite p). q \<noteq> [] \<and> length q \<le> 65535
             \<and> map_sum id (\<lambda>(rc, r). (Type (rec_h rc), ID (rec_h rc), content rc, r))
                   (read (frame (Reserved (h c)) (recType w) (reqID w) q @ rest))
                 = Inr (recType w, reqID w, q, rest)"
  proof
    fix q assume "q \<in> set (chop maxWrite p)"
    then have q: "q \<noteq> [] \<and> length q \<le> 65535"
      using chop_pieces[of maxWrite q p] by (simp add: maxWrite_def)
    then show "q \<noteq> [] \<and> length q \<le> 65535
             \<and> map_sum id (\<lambda>(rc, r). (Type (rec_h rc), ID (rec_h rc), content rc, r))
                   (read (frame (Reserved (h c)) (recType w) (reqID w) q @ rest))
                 = Inr (recType w, reqID w, q, rest)"
      by (simp add: read_frame content_def unat_of_nat_u16)
  qed
  have 5: "chop maxWrite ([] :: byte list) = []" by (rule chop_Nil)
  have 6: "fst (streamWriter_Close wr w c) = None"
    unfolding streamWriter_Close_frame by (rule writeRecord_nofail(1)[OF assms]) simp
  have 7: "rwc (snd (streamWriter_Close wr w c))
           = after_writes wr (rwc c) [frame (Reserved (h c)) (recType w) (reqID w) []]"
    unfolding streamWriter_Close_frame
    by (simp add: writeRecord_nofail(2)[OF assms] after_writes_Cons after_writes_Nil)
  have 8: "frame (Reserved (h c)) (recType w) (reqID w) []
           = [1, recType w, of_nat (unat (reqID w) div 256), of_nat (unat (reqID w) mod 256),
              0, 0, 0, Reserved (h c)]"
    by (rule frame_empty)
  from 1 2 3 4 5 6 7 8 show ?thesis by (simp only: simp_thms)
qed

theorem streamWriter_Write_Close_records_witness:
  "(\<forall>s bs. snd (wire_Write s bs) = None)
   \<and> fst (streamWriter_Write wire_Write \<lparr>recType = typeStdin, reqID = 1\<rparr> [104, 105] (newConn []))
       = (2, None)
   \<and> rwc (snd (streamWriter_Write wire_Write \<lparr>recType = typeStdin, reqID = 1\<rparr> [104, 105]
               (newConn [])))
       = [[1, 5, 0, 1, 0, 2, 6, 0, 104, 105, 0, 0, 0, 0, 0, 0]]
   \<and> rwc (snd (streamWriter_Close wire_Write \<lparr>recType = typeStdin, reqID = 1\<rparr> (newConn [])))
       = [[1, 5, 0, 1, 0, 0, 0, 0]]"
proof -
  have nf: "\<forall>s bs. snd (wire_Write s bs) = None" by (simp add: wire_Write_def)
  have ch: "chop maxWrite [104, 105 :: byte] = [[104, 105]]"
    by (rule chop_short) (simp_all add: maxWrite_def)
  have pd: "padding_of (Suc (Suc 0)) = 6" by (simp add: padding_of_def)
  have r6: "replicate 6 (0 :: byte) = [0, 0, 0, 0, 0, 0]" by (simp add: numeral_eq_Suc)
  show ?thesis
    using streamWriter_Write_Close_records[OF nf,
        of "\<lparr>recType = typeStdin, reqID = 1\<rparr>" "[104, 105]" "newConn []" "[]"] nf
    by (simp add: ch after_writes_wire frame_def pd r6 padding_of_0 newConn_def header_zero_def
        typeStdin_def)
qed

section \<open>Claims about writePairs and the request on the wire\<close>

lemma wire_nofail: "\<forall>s bs. snd (wire_Write s bs) = None"
  by (simp add: wire_Write_def)

lemma writePairs_wire_contents:
  "wire_contents (drop (length (rwc c)) (rwc (snd (writePairs wire_Write rt rid ps c))))
     = concat (map pairBytes ps)
   \<and> fst (writePairs wire_Write rt rid ps c) = None"
proof -
  obtain c' qs where w: "writePairs wire_Write rt rid ps c = (None, c')"
    and r: "rwc c' = after_writes wire_Write (rwc c)
                 (map (frame (Reserved (h c)) rt rid) qs @ [frame (Reserved (h c)) rt rid []])"
    and la: "list_all (\<lambda>q. q \<noteq> [] \<and> length q \<le> maxWrite) qs"
    and cq: "concat qs = concat (map pairBytes ps)"
    using writePairs_emits[OF wire_nofail, of rt rid ps c] by blast
  have "drop (length (rwc c)) (rwc c')
          = map (frame (Reserved (h c)) rt rid) qs @ [frame (Reserved (h c)) rt rid []]"
    unfolding r after_writes_wire by simp
  then show ?thesis
    using wire_contents_frames[OF la] cq by (simp add: w)
qed

lemma not_single_after_empty_pair:
  assumes "k \<noteq> []"
  shows "map_option mset (map_option ((#) ([], [])) X) \<noteq> Some {#(k, [])#}"
proof (cases X)
  case None
  then show ?thesis by simp
next
  case (Some ys)
  have "mset (([], []) # ys) \<noteq> {#(k, [])#}"
  proof
    assume "mset (([], []) # ys) = {#(k, [])#}"
    then have "set_mset (mset (([], []) # ys)) = set_mset {#(k, [])#}" by (simp only:)
    then have "([], []) \<in> {(k, [])}" by auto
    then show False using assms by simp
  qed
  then show ?thesis by (simp add: Some)
qed

lemma long_name_not_read_back:
  assumes "length k = 2147483648"
  shows "map_option mset
     (decodePairs (wire_contents (rwc (snd (writePairs wire_Write typeParams 1
        [(k, [])] (newConn []))))))
   \<noteq> Some {#(k, [])#}"
proof -
  have wc: "wire_contents (rwc (snd (writePairs wire_Write typeParams 1 [(k, [])] (newConn []))))
              = pairBytes (k, [])"
    using writePairs_wire_contents[of "newConn []" typeParams 1 "[(k, [])]"]
    by (simp add: newConn_def)
  have d: "decodePairs (pairBytes (k, []))
             = map_option ((#) ([], [])) (decodePairs (bytes_of k))"
    using decodePairs_long_name[OF assms, of "[]"] by simp
  have ne: "k \<noteq> []" using assms by auto
  show ?thesis unfolding wc d by (rule not_single_after_empty_pair[OF ne])
qed

text \<open>C3, as stated, fails: a map with one name of \<open>2^31\<close> bytes (and an empty value). The
  name length is \<open>uint32(len(k)) = 0x80000000\<close>, \<open>encodeSize\<close> sets the top bit that is
  already set, and \<open>readSize\<close> masks it off and returns 0: the pairs read back start with
  the pair of two empty strings, or cannot be read at all.\<close>

theorem writePairs_roundtrip_long_name_counterexample:
  "map_option mset
     (decodePairs (wire_contents (rwc (snd (writePairs wire_Write typeParams 1
        [(replicate 2147483648 (CHR ''a''), [])] (newConn []))))))
   \<noteq> Some {#(replicate 2147483648 (CHR ''a''), [])#}"
  by (rule long_name_not_read_back) (rule length_replicate)

text \<open>C3, amended. For every list \<open>ps\<close> of the name-value pairs of a map, in the order the
  iteration yields them, whose names and values are shorter than \<open>2^31\<close> bytes and whose
  encoding is shorter than \<open>2^32\<close> bytes in all (\<open>readString\<close> compares with
  \<open>uint32(len(s))\<close>): over a stream that records what it is given, \<open>writePairs\<close> returns
  no error, and the content bytes of the records it wrote, read back pair by pair with
  \<open>readSize\<close> and \<open>readString\<close>, are exactly the pairs \<open>ps\<close>, hence the same multiset.\<close>

theorem writePairs_roundtrip:
  assumes "list_all (\<lambda>kv. length (fst kv) < 2147483648 \<and> length (snd kv) < 2147483648) ps"
    and "length (concat (map pairBytes ps)) < 4294967296"
  shows "fst (writePairs wire_Write rt rid ps c) = None
       \<and> decodePairs (wire_contents (drop (length (rwc c))
            (rwc (snd (writePairs wire_Write rt rid ps c))))) = Some ps
       \<and> map_option mset (decodePairs (wire_contents (drop (length (rwc c))
            (rwc (snd (writePairs wire_Write rt rid ps c)))))) = Some (mset ps)"
  using writePairs_wire_contents[of c rt rid ps] decodePairs_concat[OF assms] by simp

theorem writePairs_roundtrip_witness:
  "list_all (\<lambda>kv. length (fst kv) < 2147483648 \<and> length (snd kv) < 2147483648)
     [(''REQUEST_METHOD'', ''GET''), (''SCRIPT_FILENAME'', ''/x.php'')]
   \<and> decodePairs (wire_contents (rwc (snd (writePairs wire_Write typeParams 1
         [(''REQUEST_METHOD'', ''GET''), (''SCRIPT_FILENAME'', ''/x.php'')] (newConn [])))))
       = Some [(''REQUEST_METHOD'', ''GET''), (''SCRIPT_FILENAME'', ''/x.php'')]"
proof -
  have l: "length (concat (map pairBytes
             [(''REQUEST_METHOD'', ''GET''), (''SCRIPT_FILENAME'', ''/x.php'')])) < 4294967296"
    by (simp add: pairBytes_def length_sizeBytes length_bytes_of)
  show ?thesis
    using writePairs_roundtrip[of "[(''REQUEST_METHOD'', ''GET''), (''SCRIPT_FILENAME'', ''/x.php'')]"
        typeParams 1 "newConn []"] l
    by (simp add: newConn_def)
qed





text \<open>C5, as stated, fails: for the stdout \<open>Status: 000\<close>, \<open>Content-Type: text/plain\<close>,
  blank line, a \<open>Status\<close> header is there and its first three characters make the
  integer 0, but the status written is 200: \<open>statusCode == 0\<close> is how the code tells
  that no status was given.\<close>

theorem writeResponse_Status_000_counterexample:
  "writeResponse \<lparr>rw_header = [], rw_codes = [], rw_body = [], rw_fail = None\<rparr>
     (''Status: 000'' @ [LF] @ ''Content-Type: text/plain'' @ [LF, LF])
   = (None, \<lparr>rw_header = [(''Content-Type'', [''text/plain''])], rw_codes = [200],
               rw_body = [], rw_fail = None\<rparr>)"
  by code_simp

text \<open>C5, amended. Take header lines \<open>ls\<close>, each well formed (shorter than the reader's
  buffer, with a colon, and with a three-character decimal start in every \<open>Status\<close>
  value).

  If \<open>ls\<close> is not empty and is followed by a blank line (\<open>\n\<close> or \<open>\r\n\<close>) and the body:
  if the last \<open>Status\<close> line (name exactly \<open>Status\<close> after trimming) has a code other than
  0, \<open>writeResponse\<close> writes that code; otherwise (no \<open>Status\<close> line, or code 0), if the
  first \<open>Location\<close> value is not empty it writes 302; otherwise, if there is no
  \<open>Content-Type\<close> header or its first value is empty, it fails with
  \<open>missing required Content-Type in headers\<close> and writes 500; otherwise it writes 200.
  When a status is selected it is the only one written, and the result is an error only
  if copying a non-empty body to the response writer fails.

  If \<open>ls\<close> is followed by a \<open>Status\<close> line whose trimmed value is shorter than three
  characters or does not start with three characters of a decimal number,
  \<open>writeResponse\<close> fails with a bogus-status error, whatever comes after the line, and
  leaves the response writer as it was.\<close>

theorem writeResponse_status_selection:
  assumes "\<forall>l \<in> set ls. wellFormedLine l"
  shows "(ls \<noteq> [] \<and> (blank = [LF] \<or> blank = [CR, LF]) \<longrightarrow>
            (case selectStatus (map parseLine ls) of
               None \<Rightarrow>
                 writeResponse w (concat (map (\<lambda>l. l @ [LF]) ls) @ blank @ body)
                   = (Some (Errorf ''missing required Content-Type in headers''),
                      WriteHeader 500 w)
             | Some code \<Rightarrow>
                 rw_codes (snd (writeResponse w (concat (map (\<lambda>l. l @ [LF]) ls) @ blank @ body)))
                   = rw_codes w @ [code]
                 \<and> (fst (writeResponse w (concat (map (\<lambda>l. l @ [LF]) ls) @ blank @ body)) = None)
                     = (body = [] \<or> rw_fail w = None)))
         \<and> (bogusStatusLine bad \<longrightarrow>
              writeResponse w (concat (map (\<lambda>l. l @ [LF]) ls) @ bad @ LF # rest)
                = (Some (Errorf (if length (snd (parseLine bad)) < 3
                                 then ''bogus status (short): '' else ''bogus status: '')), w))"
proof (intro conjI impI)
  assume a: "ls \<noteq> [] \<and> (blank = [LF] \<or> blank = [CR, LF])"
  then have ne: "ls \<noteq> []" and bl: "blank = [LF] \<or> blank = [CR, LF]" by simp_all
  note wb = writeResponse_block[OF ne assms bl, of w body]
  show "case selectStatus (map parseLine ls) of
          None \<Rightarrow>
            writeResponse w (concat (map (\<lambda>l. l @ [LF]) ls) @ blank @ body)
              = (Some (Errorf ''missing required Content-Type in headers''), WriteHeader 500 w)
        | Some code \<Rightarrow>
            rw_codes (snd (writeResponse w (concat (map (\<lambda>l. l @ [LF]) ls) @ blank @ body)))
              = rw_codes w @ [code]
            \<and> (fst (writeResponse w (concat (map (\<lambda>l. l @ [LF]) ls) @ blank @ body)) = None)
                = (body = [] \<or> rw_fail w = None)"
  proof (cases "selectStatus (map parseLine ls)")
    case None
    then show ?thesis using wb by simp
  next
    case (Some code)
    then show ?thesis
      using wb by (cases "rw_fail w") (simp_all add: io_Copy_def WriteHeader_def)
  qed
next
  assume "bogusStatusLine bad"
  then show "writeResponse w (concat (map (\<lambda>l. l @ [LF]) ls) @ bad @ LF # rest)
               = (Some (Errorf (if length (snd (parseLine bad)) < 3
                                then ''bogus status (short): '' else ''bogus status: '')), w)"
    by (rule writeResponse_bogus_status[OF assms])
qed

theorem writeResponse_status_selection_witness:
  "wellFormedLine (''Location: /x'' @ [CR])
   \<and> wellFormedLine (''Status: 201 Created'' @ [CR])
   \<and> bogusStatusLine ''Status: 2x0 OK''
   \<and> rw_codes (snd (writeResponse
                      \<lparr>rw_header = [], rw_codes = [], rw_body = [], rw_fail = None\<rparr>
                      (''Location: /x'' @ [CR, LF] @ ''Status: 201 Created'' @ [CR, LF, CR, LF]
                         @ ''hi''))) = [201]
   \<and> writeResponse \<lparr>rw_header = [], rw_codes = [], rw_body = [], rw_fail = None\<rparr>
        (''Location: /x'' @ [CR, LF] @ ''Status: 201 Created'' @ [CR, LF]
           @ ''Status: 2x0 OK'' @ [LF, LF])
      = (Some (Errorf ''bogus status: ''),
         \<lparr>rw_header = [], rw_codes = [], rw_body = [], rw_fail = None\<rparr>)"
proof -
  let ?w = "\<lparr>rw_header = [], rw_codes = [], rw_body = [], rw_fail = None\<rparr>"
  have h: "\<forall>l \<in> set [''Location: /x'' @ [CR], ''Status: 201 Created'' @ [CR]]. wellFormedLine l"
    by code_simp
  have b: "bogusStatusLine ''Status: 2x0 OK''" by code_simp
  have s: "selectStatus (map parseLine [''Location: /x'' @ [CR], ''Status: 201 Created'' @ [CR]])
             = Some 201"
    by code_simp
  have v: "length (snd (parseLine ''Status: 2x0 OK'')) < 3 \<longleftrightarrow> False" by code_simp
  note t = writeResponse_status_selection[OF h, of "[CR, LF]" ?w "''hi''" "''Status: 2x0 OK''" "[LF]"]
  have t1: "rw_codes (snd (writeResponse ?w
                (''Location: /x'' @ [CR, LF] @ ''Status: 201 Created'' @ [CR, LF, CR, LF]
                   @ ''hi''))) = [201]"
    using t unfolding s by simp
  have t2: "writeResponse ?w
              (''Location: /x'' @ [CR, LF] @ ''Status: 201 Created'' @ [CR, LF]
                 @ ''Status: 2x0 OK'' @ [LF, LF])
            = (Some (Errorf ''bogus status: ''), ?w)"
    using t b unfolding v by simp
  have h1: "wellFormedLine (''Location: /x'' @ [CR])"
    and h2: "wellFormedLine (''Status: 201 Created'' @ [CR])"
    using h by simp_all
  from h1 h2 b t1 t2 show ?thesis by blast
qed

end
